theory Spec2Isabelle
  imports Complex_Main "HOL-Library.Log_Nat"
begin

section \<open>Python numbers\<close>

text \<open>
  The video engine (\<^verbatim>\<open>src/tools/video_gen/server.py\<close>) computes with Python's
  \<^verbatim>\<open>int\<close> (unbounded) and \<^verbatim>\<open>float\<close> (IEEE-754 binary64). A finite float is
  modelled by the real number it denotes; every float operation computes the exact
  result and rounds it to the nearest binary64 value, ties to even (\<open>fl\<close>), going to
  an infinity beyond the largest finite value (\<open>rnd\<close>). The sign of a zero is not
  modelled: no operation used by the engine can observe it (a zero divisor raises
  whatever its sign, and \<^verbatim>\<open>int(-0.0)\<close> is \<^verbatim>\<open>0\<close>).
\<close>

datatype error =
    ZeroDivisionError
  | OverflowError
  | ValueError
  | KeyError
  | IndexError
  | DecodeError
  | ResizeError
  | EncoderError

definition bnd :: "error + 'a \<Rightarrow> ('a \<Rightarrow> error + 'b) \<Rightarrow> error + 'b" where
  "bnd m f = (case m of Inl e \<Rightarrow> Inl e | Inr v \<Rightarrow> f v)"

definition pow2 :: "int \<Rightarrow> real" where
  "pow2 e = (if 0 \<le> e then 2 ^ nat e else 1 / 2 ^ nat (- e))"

text \<open>\<open>ilog2 x\<close> is \<open>\<lfloor>log\<^sub>2 x\<rfloor>\<close> for \<open>0 < x\<close>, computed from bit lengths.\<close>

definition ilog2 :: "real \<Rightarrow> int" where
  "ilog2 x = (if 1 \<le> x then bitlen \<lfloor>x\<rfloor> - 1 else - bitlen (\<lceil>1 / x\<rceil> - 1))"

text \<open>The nearest integer, a tie going to the even neighbour.\<close>

definition round_even :: "real \<Rightarrow> int" where
  "round_even x =
     (if x - of_int \<lfloor>x\<rfloor> < 1 / 2 then \<lfloor>x\<rfloor>
      else if 1 / 2 < x - of_int \<lfloor>x\<rfloor> then \<lfloor>x\<rfloor> + 1
      else if even \<lfloor>x\<rfloor> then \<lfloor>x\<rfloor> else \<lfloor>x\<rfloor> + 1)"

text \<open>
  The exponent of the unit in the last place of \<open>x\<close>: 53 significant bits, and
  \<open>2\<^sup>-\<^sup>1\<^sup>0\<^sup>7\<^sup>4\<close> in the subnormal range.
\<close>

definition fexp :: "real \<Rightarrow> int" where
  "fexp x = max (ilog2 \<bar>x\<bar> - 52) (- 1074)"

definition fl :: "real \<Rightarrow> real" where
  "fl x = (if x = 0 then 0 else of_int (round_even (x / pow2 (fexp x))) * pow2 (fexp x))"

definition max_double :: real where
  "max_double = (2 ^ 53 - 1) * 2 ^ 971"

datatype pyfloat = Fin real | PInf | NInf | NaN

definition rnd :: "real \<Rightarrow> pyfloat" where
  "rnd x = (if max_double < fl x then PInf else if fl x < - max_double then NInf else Fin (fl x))"

fun fneg :: "pyfloat \<Rightarrow> pyfloat" where
  "fneg (Fin a) = Fin (- a)"
| "fneg PInf = NInf"
| "fneg NInf = PInf"
| "fneg NaN = NaN"

fun fadd :: "pyfloat \<Rightarrow> pyfloat \<Rightarrow> pyfloat" where
  "fadd (Fin a) (Fin b) = rnd (a + b)"
| "fadd NaN y = NaN"
| "fadd x NaN = NaN"
| "fadd PInf NInf = NaN"
| "fadd NInf PInf = NaN"
| "fadd PInf y = PInf"
| "fadd NInf y = NInf"
| "fadd x y = y"

definition fsub :: "pyfloat \<Rightarrow> pyfloat \<Rightarrow> pyfloat" where
  "fsub x y = fadd x (fneg y)"

fun fmul :: "pyfloat \<Rightarrow> pyfloat \<Rightarrow> pyfloat" where
  "fmul (Fin a) (Fin b) = rnd (a * b)"
| "fmul NaN y = NaN"
| "fmul x NaN = NaN"
| "fmul (Fin a) y = (if a = 0 then NaN else if 0 < a then y else fneg y)"
| "fmul x (Fin b) = (if b = 0 then NaN else if 0 < b then x else fneg x)"
| "fmul PInf y = y"
| "fmul NInf y = fneg y"

text \<open>Python raises on a zero divisor, whatever the dividend.\<close>

fun fdiv :: "pyfloat \<Rightarrow> pyfloat \<Rightarrow> error + pyfloat" where
  "fdiv x (Fin b) =
     (if b = 0 then Inl ZeroDivisionError
      else Inr (case x of
                  Fin a \<Rightarrow> rnd (a / b)
                | NaN \<Rightarrow> NaN
                | z \<Rightarrow> if 0 < b then z else fneg z))"
| "fdiv (Fin a) NaN = Inr NaN"
| "fdiv (Fin a) y = Inr (Fin 0)"
| "fdiv x y = Inr NaN"

fun flt :: "pyfloat \<Rightarrow> pyfloat \<Rightarrow> bool" where
  "flt (Fin a) (Fin b) = (a < b)"
| "flt NaN y = False"
| "flt x NaN = False"
| "flt x NInf = False"
| "flt PInf y = False"
| "flt x y = True"

datatype pynum = PInt int | PFloat pyfloat

text \<open>A float literal of the source, or a decimal number of the request's JSON.\<close>

definition dbl :: "real \<Rightarrow> pynum" where
  "dbl x = PFloat (rnd x)"

text \<open>Converting an \<^verbatim>\<open>int\<close> operand to \<^verbatim>\<open>float\<close> rounds, and raises when it is too large.\<close>

fun to_float :: "pynum \<Rightarrow> error + pyfloat" where
  "to_float (PFloat x) = Inr x"
| "to_float (PInt n) =
     (case rnd (of_int n) of Fin r \<Rightarrow> Inr (Fin r) | z \<Rightarrow> Inl OverflowError)"

fun num_add :: "pynum \<Rightarrow> pynum \<Rightarrow> error + pynum" where
  "num_add (PInt m) (PInt n) = Inr (PInt (m + n))"
| "num_add a b = bnd (to_float a) (\<lambda>x. bnd (to_float b) (\<lambda>y. Inr (PFloat (fadd x y))))"

fun num_sub :: "pynum \<Rightarrow> pynum \<Rightarrow> error + pynum" where
  "num_sub (PInt m) (PInt n) = Inr (PInt (m - n))"
| "num_sub a b = bnd (to_float a) (\<lambda>x. bnd (to_float b) (\<lambda>y. Inr (PFloat (fsub x y))))"

fun num_mul :: "pynum \<Rightarrow> pynum \<Rightarrow> error + pynum" where
  "num_mul (PInt m) (PInt n) = Inr (PInt (m * n))"
| "num_mul a b = bnd (to_float a) (\<lambda>x. bnd (to_float b) (\<lambda>y. Inr (PFloat (fmul x y))))"

text \<open>True division \<^verbatim>\<open>/\<close>: of two ints it is the correctly rounded quotient.\<close>

fun num_truediv :: "pynum \<Rightarrow> pynum \<Rightarrow> error + pynum" where
  "num_truediv (PInt m) (PInt n) =
     (if n = 0 then Inl ZeroDivisionError
      else case rnd (of_int m / of_int n) of
             Fin r \<Rightarrow> Inr (PFloat (Fin r))
           | z \<Rightarrow> Inl OverflowError)"
| "num_truediv a b =
     bnd (to_float a) (\<lambda>x. bnd (to_float b) (\<lambda>y. bnd (fdiv x y) (\<lambda>q. Inr (PFloat q))))"

definition trunc :: "real \<Rightarrow> int" where
  "trunc r = (if 0 \<le> r then \<lfloor>r\<rfloor> else \<lceil>r\<rceil>)"

text \<open>The builtin \<^verbatim>\<open>int()\<close>: truncation toward zero.\<close>

fun num_int :: "pynum \<Rightarrow> error + int" where
  "num_int (PInt n) = Inr n"
| "num_int (PFloat (Fin r)) = Inr (trunc r)"
| "num_int (PFloat NaN) = Inl ValueError"
| "num_int (PFloat x) = Inl OverflowError"

text \<open>Comparison of an int with a float is exact.\<close>

fun num_val :: "pynum \<Rightarrow> pyfloat" where
  "num_val (PInt n) = Fin (of_int n)"
| "num_val (PFloat x) = x"

definition num_lt :: "pynum \<Rightarrow> pynum \<Rightarrow> bool" where
  "num_lt a b = flt (num_val a) (num_val b)"

text \<open>
  The builtins \<^verbatim>\<open>max(a, b)\<close> and \<^verbatim>\<open>min(a, b)\<close> keep the first argument unless the
  second is strictly greater (smaller); the result keeps its type.
\<close>

definition py_max :: "pynum \<Rightarrow> pynum \<Rightarrow> pynum" where
  "py_max a b = (if num_lt a b then b else a)"

definition py_min :: "pynum \<Rightarrow> pynum \<Rightarrow> pynum" where
  "py_min a b = (if num_lt b a then b else a)"

section \<open>Motion presets and easing\<close>

record MotionSpec =
  start_scale :: pynum
  end_scale :: pynum
  start_x :: pynum
  end_x :: pynum
  start_y :: pynum
  end_y :: pynum

definition mk_motion :: "real \<Rightarrow> real \<Rightarrow> real \<Rightarrow> real \<Rightarrow> real \<Rightarrow> real \<Rightarrow> MotionSpec" where
  "mk_motion ss es sx ex sy ey =
     \<lparr>start_scale = dbl ss, end_scale = dbl es, start_x = dbl sx, end_x = dbl ex,
      start_y = dbl sy, end_y = dbl ey\<rparr>"

definition MOTION_PRESETS :: "(string \<times> MotionSpec) list" where
  "MOTION_PRESETS =
    [(''zoom_in'', mk_motion 1 (13/10) (1/2) (1/2) (1/2) (1/2)),
     (''zoom_out'', mk_motion (13/10) 1 (1/2) (1/2) (1/2) (1/2)),
     (''pan_left'', mk_motion (12/10) (12/10) (7/10) (3/10) (1/2) (1/2)),
     (''pan_right'', mk_motion (12/10) (12/10) (3/10) (7/10) (1/2) (1/2)),
     (''pan_up'', mk_motion (12/10) (12/10) (1/2) (1/2) (7/10) (3/10)),
     (''pan_down'', mk_motion (12/10) (12/10) (1/2) (1/2) (3/10) (7/10)),
     (''zoom_pan_tl'', mk_motion 1 (14/10) (1/2) (3/10) (1/2) (3/10)),
     (''zoom_pan_tr'', mk_motion 1 (14/10) (1/2) (7/10) (1/2) (3/10)),
     (''zoom_pan_bl'', mk_motion 1 (14/10) (1/2) (3/10) (1/2) (7/10)),
     (''zoom_pan_br'', mk_motion 1 (14/10) (1/2) (7/10) (1/2) (7/10)),
     (''dramatic_zoom'', mk_motion 1 2 (1/2) (1/2) (1/2) (1/2)),
     (''slow_drift'', mk_motion (11/10) (115/100) (45/100) (55/100) (48/100) (52/100))]"

text \<open>Subscription \<^verbatim>\<open>MOTION_PRESETS[name]\<close> raises on a missing key.\<close>

definition preset_item :: "string \<Rightarrow> error + MotionSpec" where
  "preset_item name =
     (case map_of MOTION_PRESETS name of None \<Rightarrow> Inl KeyError | Some m \<Rightarrow> Inr m)"

text \<open>
  \<^verbatim>\<open>MOTION_PRESETS.get(preset, MOTION_PRESETS['zoom_in'])\<close>: the default is evaluated
  first, then the name is looked up.
\<close>

definition preset_get :: "string \<Rightarrow> error + MotionSpec" where
  "preset_get name =
     bnd (preset_item ''zoom_in'')
       (\<lambda>d. Inr (case map_of MOTION_PRESETS name of None \<Rightarrow> d | Some m \<Rightarrow> m))"

text \<open>\<^verbatim>\<open>t * t * (3 - 2 * t)\<close>, evaluated left to right.\<close>

definition ease_in_out :: "pynum \<Rightarrow> error + pynum" where
  "ease_in_out t =
     bnd (num_mul t t) (\<lambda>tt.
     bnd (num_mul (PInt 2) t) (\<lambda>t2.
     bnd (num_sub (PInt 3) t2) (\<lambda>d.
     num_mul tt d)))"

section \<open>The frame generator\<close>

text \<open>\<^verbatim>\<open>a + (b - a) * t\<close>, the expression of lines 51 to 53 of the source.\<close>

definition interpolate :: "pynum \<Rightarrow> pynum \<Rightarrow> pynum \<Rightarrow> error + pynum" where
  "interpolate a b t =
     bnd (num_sub b a) (\<lambda>d.
     bnd (num_mul d t) (\<lambda>dt.
     num_add a dt))"

text \<open>Lines 48 to 53 of \<^verbatim>\<open>generate_frame\<close>: the eased progress \<open>t\<close> of a frame.\<close>

definition frame_progress :: "int \<Rightarrow> int \<Rightarrow> error + pynum" where
  "frame_progress frame_idx total_frames =
     bnd (num_truediv (PInt frame_idx) (PInt (max (total_frames - 1) 1))) ease_in_out"

record MotionState =
  scale :: pynum
  cx :: pynum
  cy :: pynum

definition motion_state :: "int \<Rightarrow> int \<Rightarrow> MotionSpec \<Rightarrow> error + MotionState" where
  "motion_state frame_idx total_frames motion =
     bnd (frame_progress frame_idx total_frames) (\<lambda>t.
     bnd (interpolate (start_scale motion) (end_scale motion) t) (\<lambda>s.
     bnd (interpolate (start_x motion) (end_x motion) t) (\<lambda>x.
     bnd (interpolate (start_y motion) (end_y motion) t) (\<lambda>y.
     Inr \<lparr>scale = s, cx = x, cy = y\<rparr>))))"

record CropWindow =
  crop_w :: int
  crop_h :: int
  x1 :: int
  y1 :: int
  x2 :: int
  y2 :: int

text \<open>Lines 56 to 69: the crop window of a \<open>w \<times> h\<close> image for a motion state.\<close>

definition crop_window :: "int \<Rightarrow> int \<Rightarrow> MotionState \<Rightarrow> error + CropWindow" where
  "crop_window w h st =
     bnd (bnd (num_truediv (PInt w) (scale st)) num_int) (\<lambda>cw.
     bnd (bnd (num_truediv (PInt h) (scale st)) num_int) (\<lambda>ch.
     bnd (bnd (num_mul (PInt (w - cw)) (cx st)) num_int) (\<lambda>xa.
     bnd (bnd (num_mul (PInt (h - ch)) (cy st)) num_int) (\<lambda>ya.
     let xb = max 0 (min xa (w - cw));
         yb = max 0 (min ya (h - ch))
     in Inr \<lparr>crop_w = cw, crop_h = ch, x1 = xb, y1 = yb, x2 = xb + cw, y2 = yb + ch\<rparr>))))"

text \<open>
  The length of the slice \<^verbatim>\<open>a[lo:hi]\<close> of an axis of length \<open>n\<close>: bounds beyond the
  axis are clipped, a negative bound counts from the end.
\<close>

definition slice_bound :: "int \<Rightarrow> int \<Rightarrow> int" where
  "slice_bound n i = (if i < 0 then max 0 (n + i) else min i n)"

definition slice_len :: "int \<Rightarrow> int \<Rightarrow> int \<Rightarrow> nat" where
  "slice_len n lo hi = nat (slice_bound n hi - slice_bound n lo)"

text \<open>
  An image is its width and height; pixel values play no part in the properties below.
  The imaging library is a parameter: \<open>pil_resize src dst\<close> says whether building an
  image from an array of size \<open>src\<close> and resampling it to the size \<open>dst\<close> succeeds; when
  it does, the result has exactly the requested size \<open>dst\<close>.
\<close>

record image =
  width :: nat
  height :: nat

type_synonym pil = "nat \<times> nat \<Rightarrow> nat \<times> nat \<Rightarrow> bool"

definition resize :: "pil \<Rightarrow> nat \<times> nat \<Rightarrow> nat \<times> nat \<Rightarrow> error + image" where
  "resize pil_resize src dst =
     (if pil_resize src dst then Inr \<lparr>width = fst dst, height = snd dst\<rparr> else Inl ResizeError)"

definition generate_frame :: "pil \<Rightarrow> image \<Rightarrow> int \<Rightarrow> int \<Rightarrow> MotionSpec \<Rightarrow> error + image" where
  "generate_frame pil_resize img_array frame_idx total_frames motion =
     (let w = int (width img_array); h = int (height img_array) in
      bnd (motion_state frame_idx total_frames motion) (\<lambda>st.
      bnd (crop_window w h st) (\<lambda>c.
      resize pil_resize
        (slice_len w (x1 c) (x2 c), slice_len h (y1 c) (y2 c))
        (width img_array, height img_array))))"

section \<open>The request handler\<close>

text \<open>
  The JSON body of a request to \<^verbatim>\<open>/generate\<close>; \<open>None\<close> is an absent key. Numbers are
  ints or floats, the custom motion is an object, listed as its key/value pairs with
  distinct keys. Bodies whose fields have other JSON types are not modelled.
\<close>

record request =
  req_image :: "string option"
  req_preset :: "string option"
  req_duration :: "pynum option"
  req_fps :: "pynum option"
  req_format :: "string option"
  req_motion :: "(string \<times> pynum) list option"

text \<open>
  What the handler meets outside its own code: the imaging library (\<open>pil_resize\<close>),
  the decoding of the base64 image to an image of some size (\<open>None\<close> when it raises),
  what \<^verbatim>\<open>import imageio\<close> and the MP4 writer do inside the inner \<^verbatim>\<open>try\<close>: raise
  \<^verbatim>\<open>ImportError\<close>, raise something else, or write the file; and the file suffixes
  other than \<^verbatim>\<open>.gif\<close> for which the imaging library has a writer (\<open>pil_known\<close>): its
  \<^verbatim>\<open>save\<close> picks the file format from the suffix of the path and raises
  \<^verbatim>\<open>ValueError\<close> when it knows none.
\<close>

datatype imageio_status = ImportFails | WriterFails | WriterWorks

record env =
  pil_resize :: pil
  decode :: "string \<Rightarrow> (nat \<times> nat) option"
  imageio :: imageio_status
  pil_known :: "string \<Rightarrow> bool"

text \<open>
  The encoded file, kept as the arguments it was written with: a GIF with its frame
  duration in milliseconds, its \<^verbatim>\<open>loop\<close> count (0 repeats forever) and the
  \<^verbatim>\<open>optimize\<close> flag; an MP4 with its frame rate; or a file that the imaging library
  wrote to a path with another suffix, in the format of that suffix.
\<close>

datatype video =
    GifFile (gif_duration: int) (gif_loop: int) (gif_optimize: bool) (gif_frames: "image list")
  | Mp4File (mp4_fps: pynum) (mp4_frames: "image list")
  | PilFile (pil_suffix: string) (pil_duration: int) (pil_loop: int) (pil_frames: "image list")

record result =
  res_video :: video
  res_format :: string
  res_duration :: pynum
  res_fps :: pynum
  res_frames :: int
  res_preset :: string

text \<open>
  The response: status 400, status 500 from the handler's own \<^verbatim>\<open>except\<close>, an
  exception outside the \<^verbatim>\<open>try\<close>, or the success body.
\<close>

datatype response = BadRequest | ServerError error | Unhandled error | Success result

definition custom_get :: "(string \<times> pynum) list \<Rightarrow> string \<Rightarrow> pynum \<Rightarrow> pynum" where
  "custom_get custom_motion key dflt =
     (case map_of custom_motion key of None \<Rightarrow> dflt | Some v \<Rightarrow> v)"

text \<open>Lines 130 to 140: a non-empty custom motion overrides the preset.\<close>

definition select_motion :: "(string \<times> pynum) list option \<Rightarrow> string \<Rightarrow> error + MotionSpec" where
  "select_motion custom_motion preset =
     (case custom_motion of
        Some (kv # kvs) \<Rightarrow>
          Inr \<lparr>start_scale = custom_get (kv # kvs) ''start_scale'' (dbl 1),
               end_scale = custom_get (kv # kvs) ''end_scale'' (dbl (13/10)),
               start_x = custom_get (kv # kvs) ''start_x'' (dbl (1/2)),
               end_x = custom_get (kv # kvs) ''end_x'' (dbl (1/2)),
               start_y = custom_get (kv # kvs) ''start_y'' (dbl (1/2)),
               end_y = custom_get (kv # kvs) ''end_y'' (dbl (1/2))\<rparr>
      | _ \<Rightarrow> preset_get preset)"

text \<open>Lines 144 and 145: of a data URL, the part between the first two commas.\<close>

definition strip_data_url :: "string \<Rightarrow> string" where
  "strip_data_url s =
     (if CHR '','' \<in> set s
      then takeWhile (\<lambda>c. c \<noteq> CHR '','') (tl (dropWhile (\<lambda>c. c \<noteq> CHR '','') s))
      else s)"

text \<open>Lines 164 to 167: the frames in index order, stopping at the first exception.\<close>

fun gen_frames :: "pil \<Rightarrow> image \<Rightarrow> int \<Rightarrow> MotionSpec \<Rightarrow> int list \<Rightarrow> error + image list" where
  "gen_frames p img_array total_frames motion [] = Inr []"
| "gen_frames p img_array total_frames motion (i # is) =
     bnd (generate_frame p img_array i total_frames motion) (\<lambda>frame.
     bnd (gen_frames p img_array total_frames motion is) (\<lambda>frames.
     Inr (frame # frames)))"

text \<open>The frame duration \<^verbatim>\<open>int(1000 / fps)\<close> of lines 179 and 199.\<close>

definition frame_delay :: "pynum \<Rightarrow> error + int" where
  "frame_delay fps = bnd (num_truediv (PInt 1000) fps) num_int"

text \<open>
  \<^verbatim>\<open>frames[0].save(..., append_images=frames[1:], duration=int(1000 / fps), loop=0, ...)\<close>.
\<close>

definition save_gif :: "image list \<Rightarrow> pynum \<Rightarrow> bool \<Rightarrow> error + video" where
  "save_gif frames fps optimize =
     (case frames of
        [] \<Rightarrow> Inl IndexError
      | f # fs \<Rightarrow> bnd (frame_delay fps) (\<lambda>d. Inr (GifFile d 0 optimize (f # fs))))"

text \<open>
  \<^verbatim>\<open>output_path.replace('.mp4', '.gif')\<close> of line 192, on the suffix of the temporary
  file: every occurrence of \<^verbatim>\<open>.mp4\<close> is replaced, from left to right. The directory and
  the generated name of the temporary file are taken to hold no \<^verbatim>\<open>.mp4\<close>.
\<close>

fun replace_mp4 :: "string \<Rightarrow> string" where
  "replace_mp4 [] = []"
| "replace_mp4 (c # cs) =
     (if take 4 (c # cs) = ''.mp4'' then ''.gif'' @ replace_mp4 (drop 3 cs)
      else c # replace_mp4 cs)"

text \<open>
  Lines 194 to 200, the save of the fallback: the path keeps every suffix other than
  \<^verbatim>\<open>.mp4\<close>, and the imaging library writes the format of the suffix. The arguments
  are evaluated before the library looks at the path.
\<close>

definition save_fallback :: "(string \<Rightarrow> bool) \<Rightarrow> string \<Rightarrow> image list \<Rightarrow> pynum \<Rightarrow> error + video" where
  "save_fallback known suffix frames fps =
     (if suffix = ''.gif'' then save_gif frames fps False
      else (case frames of
              [] \<Rightarrow> Inl IndexError
            | f # fs \<Rightarrow>
                bnd (frame_delay fps) (\<lambda>d.
                if known suffix then Inr (PilFile suffix d 0 (f # fs)) else Inl ValueError)))"

text \<open>Lines 173 to 201: the file written and the format reported.\<close>

definition export ::
  "imageio_status \<Rightarrow> (string \<Rightarrow> bool) \<Rightarrow> string \<Rightarrow> image list \<Rightarrow> pynum \<Rightarrow> error + video \<times> string" where
  "export io known output_format frames fps =
     (if output_format = ''gif''
      then bnd (save_gif frames fps True) (\<lambda>v. Inr (v, output_format))
      else (case io of
              WriterWorks \<Rightarrow> Inr (Mp4File fps frames, output_format)
            | WriterFails \<Rightarrow> Inl EncoderError
            | ImportFails \<Rightarrow>
                bnd (save_fallback known (replace_mp4 (''.'' @ output_format)) frames fps)
                  (\<lambda>v. Inr (v, ''gif''))))"

text \<open>Lines 151 to 157: the source resized to even width and height.\<close>

definition even_image :: "pil \<Rightarrow> nat \<times> nat \<Rightarrow> error + image" where
  "even_image p dims =
     (let target_w = (fst dims div 2) * 2;
          target_h = (snd dims div 2) * 2
      in if target_w \<noteq> fst dims \<or> target_h \<noteq> snd dims
         then resize p dims (target_w, target_h)
         else Inr \<lparr>width = fst dims, height = snd dims\<rparr>)"

text \<open>Line 159: \<^verbatim>\<open>total_frames = int(duration * fps)\<close>.\<close>

definition frame_count :: "pynum \<Rightarrow> pynum \<Rightarrow> error + int" where
  "frame_count duration fps = bnd (num_mul duration fps) num_int"

text \<open>The body of the \<^verbatim>\<open>try\<close> statement, lines 143 to 222.\<close>

definition synthesize ::
  "env \<Rightarrow> string \<Rightarrow> string \<Rightarrow> pynum \<Rightarrow> pynum \<Rightarrow> string \<Rightarrow> MotionSpec \<Rightarrow> error + result" where
  "synthesize e image_b64 preset duration fps output_format motion =
     (case decode e (strip_data_url image_b64) of
        None \<Rightarrow> Inl DecodeError
      | Some dims \<Rightarrow>
          bnd (even_image (pil_resize e) dims) (\<lambda>img_array.
          bnd (frame_count duration fps) (\<lambda>total_frames.
          bnd (gen_frames (pil_resize e) img_array total_frames motion
                 (map int [0..<nat total_frames])) (\<lambda>frames.
          bnd (export (imageio e) (pil_known e) output_format frames fps) (\<lambda>(v, fmt).
          Inr \<lparr>res_video = v, res_format = fmt, res_duration = duration, res_fps = fps,
               res_frames = total_frames, res_preset = preset\<rparr>)))))"

definition dflt :: "'a option \<Rightarrow> 'a \<Rightarrow> 'a" where
  "dflt v d = (case v of None \<Rightarrow> d | Some x \<Rightarrow> x)"

text \<open>Lines 123 and 124: the duration clamped to 1..10 seconds, the rate to 12..60.\<close>

definition clamp_duration :: "pynum option \<Rightarrow> pynum" where
  "clamp_duration d = py_min (py_max (dflt d (PInt 3)) (PInt 1)) (PInt 10)"

definition clamp_fps :: "pynum option \<Rightarrow> pynum" where
  "clamp_fps f = py_min (py_max (dflt f (PInt 24)) (PInt 12)) (PInt 60)"

definition generate :: "env \<Rightarrow> request \<Rightarrow> response" where
  "generate e data =
     (case req_image data of
        None \<Rightarrow> BadRequest
      | Some image_b64 \<Rightarrow>
          if image_b64 = [] then BadRequest
          else
            let preset = dflt (req_preset data) ''zoom_in'';
                duration = clamp_duration (req_duration data);
                fps = clamp_fps (req_fps data);
                output_format = dflt (req_format data) ''gif''
            in (case select_motion (req_motion data) preset of
                  Inl err \<Rightarrow> Unhandled err
                | Inr motion \<Rightarrow>
                    (case synthesize e image_b64 preset duration fps output_format motion of
                       Inl err \<Rightarrow> ServerError err
                     | Inr r \<Rightarrow> Success r)))"

section \<open>Predicates of the statements\<close>

text \<open>
  A number of moderate size: a finite float, or an int that a float represents exactly
  (as every int of magnitude up to \<open>2\<^sup>5\<^sup>3\<close> is), whose magnitude leaves room for the
  differences, sums and products the frame generator forms.
\<close>

fun moderate :: "pynum \<Rightarrow> bool" where
  "moderate (PFloat (Fin a)) = (fl a = a \<and> \<bar>a\<bar> \<le> 2 ^ 960)"
| "moderate (PInt n) = (fl (of_int n) = of_int n \<and> \<bar>real_of_int n\<bar> \<le> 2 ^ 960)"
| "moderate v = False"

text \<open>The float equal to a number, \<^verbatim>\<open>float(a)\<close>: a float is itself, \<^verbatim>\<open>1\<close> becomes \<^verbatim>\<open>1.0\<close>.\<close>

fun as_float :: "pynum \<Rightarrow> pynum" where
  "as_float (PInt n) = PFloat (Fin (of_int n))"
| "as_float (PFloat x) = PFloat x"

definition moderate_spec :: "MotionSpec \<Rightarrow> bool" where
  "moderate_spec m \<longleftrightarrow>
     moderate (start_scale m) \<and> moderate (end_scale m) \<and> moderate (start_x m) \<and>
     moderate (end_x m) \<and> moderate (start_y m) \<and> moderate (end_y m)"

text \<open>The real number a finite Python number denotes.\<close>

fun num_real :: "pynum \<Rightarrow> real" where
  "num_real (PInt n) = of_int n"
| "num_real (PFloat (Fin a)) = a"
| "num_real v = 0"

text \<open>\<^verbatim>\<open>a + (b - a) * 1.0\<close> in float arithmetic: what the last frame interpolates to.\<close>

definition lerp_end :: "pynum \<Rightarrow> pynum \<Rightarrow> pynum" where
  "lerp_end a b = PFloat (Fin (fl (num_real a + fl (num_real b - num_real a))))"

text \<open>The difference \<^verbatim>\<open>b - a\<close> is a float, so that it is computed without rounding.\<close>

definition exact_diff :: "pynum \<Rightarrow> pynum \<Rightarrow> bool" where
  "exact_diff a b \<longleftrightarrow> fl (num_real b - num_real a) = num_real b - num_real a"

definition exact_spec :: "MotionSpec \<Rightarrow> bool" where
  "exact_spec m \<longleftrightarrow>
     exact_diff (start_scale m) (end_scale m) \<and> exact_diff (start_x m) (end_x m) \<and>
     exact_diff (start_y m) (end_y m)"

text \<open>
  The float that \<^verbatim>\<open>ease_in_out\<close> returns for a float \<open>t\<close> between 0 and 1: the
  expression \<^verbatim>\<open>t * t * (3 - 2 * t)\<close> with each of its four operations rounded.
\<close>

definition ease_float :: "real \<Rightarrow> real" where
  "ease_float t = fl (fl (t * t) * fl (3 - fl (2 * t)))"

text \<open>The frames of an encoded file, whichever container holds them.\<close>

definition video_frames :: "video \<Rightarrow> image list" where
  "video_frames v =
     (case v of GifFile d l opt fs \<Rightarrow> fs | Mp4File fps fs \<Rightarrow> fs | PilFile sfx d l fs \<Rightarrow> fs)"

text \<open>An imaging library that resizes every non-empty image to every non-empty size.\<close>

definition pil_total :: "pil \<Rightarrow> bool" where
  "pil_total p \<longleftrightarrow>
     (\<forall>src dst. 0 < fst src \<and> 0 < snd src \<and> 0 < fst dst \<and> 0 < snd dst \<longrightarrow> p src dst)"

subsection \<open>Sample requests\<close>

text \<open>
  An environment whose imaging library accepts all non-empty sizes and writes, besides
  GIF, files with the suffix \<^verbatim>\<open>.png\<close>, and whose decoder knows one image, of 65 by 48
  pixels.
\<close>

definition demo_env :: "imageio_status \<Rightarrow> env" where
  "demo_env io =
     \<lparr>pil_resize = (\<lambda>src dst. 0 < fst src \<and> 0 < snd src \<and> 0 < fst dst \<and> 0 < snd dst),
      decode = (\<lambda>s. if s = ''AAAA'' then Some (65, 48) else None),
      imageio = io,
      pil_known = (\<lambda>suffix. suffix = ''.png'')\<rparr>"

text \<open>
  A request with every field set: a data URL, a preset name that is not in the catalog,
  a duration of 1.5 seconds at 12.5 frames per second, the MP4 format and a custom
  motion that sets one key.
\<close>

definition custom_request :: request where
  "custom_request =
     \<lparr>req_image = Some ''data:image/png;base64,AAAA'', req_preset = Some ''spin'',
      req_duration = Some (dbl (3/2)), req_fps = Some (dbl (25/2)),
      req_format = Some ''mp4'', req_motion = Some [(''start_scale'', dbl (11/10))]\<rparr>"

text \<open>A request that carries nothing but the image.\<close>

definition default_request :: request where
  "default_request =
     \<lparr>req_image = Some ''AAAA'', req_preset = None, req_duration = None, req_fps = None,
      req_format = None, req_motion = None\<rparr>"

text \<open>
  The custom motion \<^verbatim>\<open>{"start_scale": 1, "end_scale": 2, "start_x": 0, "end_x": 1}\<close>,
  whose values are JSON integers, and the motion spec the handler builds from it.
\<close>

definition int_motion :: "(string \<times> pynum) list" where
  "int_motion =
     [(''start_scale'', PInt 1), (''end_scale'', PInt 2), (''start_x'', PInt 0),
      (''end_x'', PInt 1)]"

definition int_spec :: MotionSpec where
  "int_spec =
     \<lparr>start_scale = PInt 1, end_scale = PInt 2, start_x = PInt 0, end_x = PInt 1,
      start_y = dbl (1/2), end_y = dbl (1/2)\<rparr>"

text \<open>The sample request with the format \<^verbatim>\<open>webm\<close>, whose suffix the fallback keeps.\<close>

definition webm_request :: request where
  "webm_request = custom_request\<lparr>req_format := Some ''webm''\<rparr>"
section \<open>Properties of rounding\<close>

subsection \<open>Powers of two and the binary logarithm\<close>

lemma pow2_powi: "pow2 e = 2 powi e"
  by (simp add: pow2_def power_int_def power_one_over inverse_eq_divide)

lemma pow2_pos [simp]: "0 < pow2 e"
  by (simp add: pow2_def)

lemma pow2_nonneg [simp]: "0 \<le> pow2 e"
  by (simp add: pow2_def)

lemma pow2_nonzero [simp]: "pow2 e \<noteq> 0"
  by (simp add: pow2_def)

lemma pow2_add: "pow2 (a + b) = pow2 a * pow2 b"
  by (simp add: pow2_powi power_int_add)

lemma pow2_0 [simp]: "pow2 0 = 1"
  by (simp add: pow2_def)

lemma pow2_mono: "a \<le> b \<Longrightarrow> pow2 a \<le> pow2 b"
  by (simp add: pow2_powi power_int_increasing)

lemma pow2_strict_mono: "a < b \<Longrightarrow> pow2 a < pow2 b"
  by (simp add: pow2_powi power_int_strict_increasing)

lemma pow2_nonneg_int: "0 \<le> e \<Longrightarrow> pow2 e = of_int (2 ^ nat e)"
  by (simp add: pow2_def)

lemma pow2_minus: "pow2 (- e) = 1 / pow2 e"
  by (simp add: pow2_powi power_int_minus inverse_eq_divide)

lemma ilog2_bounds:
  assumes "0 < x"
  shows "pow2 (ilog2 x) \<le> x \<and> x < pow2 (ilog2 x + 1)"
proof (cases "1 \<le> x")
  case True
  define n where "n = \<lfloor>x\<rfloor>"
  have n: "0 < n" using True by (simp add: n_def)
  have b: "2 ^ nat (bitlen n - 1) \<le> n" "n < 2 ^ nat (bitlen n)"
    using bitlen_bounds [OF n] by auto
  have bl: "1 \<le> bitlen n" using n bitlen_eq_zero_iff [of n] bitlen_nonneg [of n] by linarith
  have il: "ilog2 x = bitlen n - 1" using True by (simp add: ilog2_def n_def)
  have "real_of_int (2 ^ nat (bitlen n - 1)) \<le> of_int n" using b(1) of_int_le_iff by blast
  also have "\<dots> \<le> x" by (simp add: n_def)
  finally have lo: "pow2 (ilog2 x) \<le> x" using bl by (simp add: il pow2_def)
  have "n + 1 \<le> 2 ^ nat (bitlen n)" using b(2) by simp
  then have "real_of_int (n + 1) \<le> of_int (2 ^ nat (bitlen n))" using of_int_le_iff by blast
  moreover have "x < of_int (n + 1)" unfolding n_def by linarith
  ultimately have hi: "x < pow2 (ilog2 x + 1)" using bl by (simp add: il pow2_def)
  from lo hi show ?thesis ..
next
  case False
  define y where "y = 1 / x"
  define m where "m = \<lceil>y\<rceil> - 1"
  have y: "1 < y" using False assms by (simp add: y_def)
  have m: "0 < m" using y by (simp add: m_def)
  have my: "of_int m < y" "y \<le> of_int m + 1" unfolding m_def by linarith+
  have b: "2 ^ nat (bitlen m - 1) \<le> m" "m < 2 ^ nat (bitlen m)"
    using bitlen_bounds [OF m] by auto
  have bl: "1 \<le> bitlen m" using m bitlen_eq_zero_iff [of m] bitlen_nonneg [of m] by linarith
  have il: "ilog2 x = - bitlen m" using False by (simp add: ilog2_def m_def y_def)
  have "real_of_int (m + 1) \<le> of_int (2 ^ nat (bitlen m))" using b(2) of_int_le_iff by fastforce
  then have "y \<le> 2 ^ nat (bitlen m)" using my(2) by simp
  then have "1 / 2 ^ nat (bitlen m) \<le> x" using assms y
    by (simp add: y_def field_simps)
  then have lo: "pow2 (ilog2 x) \<le> x" using bl by (simp add: il pow2_def)
  have "real_of_int (2 ^ nat (bitlen m - 1)) \<le> of_int m" using b(1) of_int_le_iff by blast
  then have "(2::real) ^ nat (bitlen m - 1) \<le> of_int m" by simp
  then have "2 ^ nat (bitlen m - 1) < y" using my(1) by linarith
  then have "x < 1 / 2 ^ nat (bitlen m - 1)" using assms
    by (simp add: y_def field_simps)
  then have hi: "x < pow2 (ilog2 x + 1)" using bl False by (auto simp: il pow2_def)
  from lo hi show ?thesis ..
qed

lemma ilog2_unique:
  assumes "pow2 k \<le> x" "x < pow2 (k + 1)"
  shows "ilog2 x = k"
proof -
  have x: "0 < x" using assms(1) pow2_pos [of k] by linarith
  note b = ilog2_bounds [OF x]
  have "pow2 k < pow2 (ilog2 x + 1)" using assms(1) b by linarith
  then have 1: "k < ilog2 x + 1" using pow2_mono [of "ilog2 x + 1" k] by fastforce
  have "pow2 (ilog2 x) < pow2 (k + 1)" using assms(2) b by linarith
  then have 2: "ilog2 x < k + 1" using pow2_mono [of "k + 1" "ilog2 x"] by fastforce
  from 1 2 show ?thesis by simp
qed

lemma ilog2_mono:
  assumes "0 < x" "x \<le> y"
  shows "ilog2 x \<le> ilog2 y"
proof -
  have y: "0 < y" using assms by simp
  have "pow2 (ilog2 x) < pow2 (ilog2 y + 1)"
    using ilog2_bounds [OF assms(1)] ilog2_bounds [OF y] assms(2) by linarith
  then show ?thesis using pow2_mono [of "ilog2 y + 1" "ilog2 x"] by fastforce
qed

subsection \<open>Rounding to the nearest integer\<close>

lemma round_even_of_int [simp]: "round_even (of_int n) = n"
  by (simp add: round_even_def)

lemma round_even_floor: "\<lfloor>x\<rfloor> \<le> round_even x" and round_even_floor1: "round_even x \<le> \<lfloor>x\<rfloor> + 1"
  by (simp_all add: round_even_def)

lemma round_even_mono:
  assumes "x \<le> y"
  shows "round_even x \<le> round_even y"
proof (cases "\<lfloor>x\<rfloor> = \<lfloor>y\<rfloor>")
  case True
  then show ?thesis using assms by (auto simp: round_even_def)
next
  case False
  then have "\<lfloor>x\<rfloor> + 1 \<le> \<lfloor>y\<rfloor>" using floor_mono [OF assms] by linarith
  then show ?thesis using round_even_floor1 [of x] round_even_floor [of y] by linarith
qed

lemma round_even_ge: "of_int n \<le> x \<Longrightarrow> n \<le> round_even x"
  using round_even_mono [of "of_int n" x] by simp

lemma round_even_le: "x \<le> of_int n \<Longrightarrow> round_even x \<le> n"
  using round_even_mono [of x "of_int n"] by simp

lemma round_even_error: "\<bar>of_int (round_even x) - x\<bar> \<le> 1 / 2"
  unfolding round_even_def by (auto; linarith)

lemma round_even_minus: "round_even (- x) = - round_even x"
proof (cases "x = of_int \<lfloor>x\<rfloor>")
  case True
  then have "- x = of_int (- \<lfloor>x\<rfloor>)" by simp
  then have "round_even (- x) = - \<lfloor>x\<rfloor>" using round_even_of_int by metis
  moreover have "round_even x = \<lfloor>x\<rfloor>" using True round_even_of_int by metis
  ultimately show ?thesis by simp
next
  case False
  then have lt: "of_int \<lfloor>x\<rfloor> < x" by linarith
  have fm: "\<lfloor>- x\<rfloor> = - \<lfloor>x\<rfloor> - 1"
    by (rule floor_unique) (use lt in \<open>simp; linarith\<close>)+
  show ?thesis unfolding round_even_def fm using lt by auto
qed

subsection \<open>Rounding to binary64 is monotone and accurate\<close>

lemma fexp_minus [simp]: "fexp (- x) = fexp x"
  by (simp add: fexp_def)

lemma fl_0 [simp]: "fl 0 = 0"
  by (simp add: fl_def)

lemma fl_minus: "fl (- x) = - fl x"
  by (simp add: fl_def round_even_minus)

lemma fexp_pos: "0 < x \<Longrightarrow> fexp x = max (ilog2 x - 52) (- 1074)"
  by (simp add: fexp_def)

lemma fl_nonneg: "0 \<le> x \<Longrightarrow> 0 \<le> fl x"
  using round_even_ge [of 0 "x / pow2 (fexp x)"] by (simp add: fl_def)

lemma pow2_diff: "pow2 (a - b) = pow2 a / pow2 b"
  using pow2_add [of "a - b" b] by (simp add: field_simps)

lemma fl_upper:
  assumes "0 < x"
  shows "fl x \<le> pow2 (ilog2 x + 1)"
proof -
  define e where "e = fexp x"
  define k where "k = ilog2 x"
  define z where "z = x / pow2 e"
  have flx: "fl x = of_int (round_even z) * pow2 e"
    using assms by (simp add: fl_def e_def z_def)
  have "x < pow2 (k + 1)" using ilog2_bounds [OF assms] by (simp add: k_def)
  then have zlt: "z < pow2 (k + 1 - e)"
    by (simp add: z_def pow2_diff divide_strict_right_mono)
  have zpos: "0 < z" using assms by (simp add: z_def)
  show ?thesis
  proof (cases "0 \<le> k + 1 - e")
    case True
    then have "z \<le> of_int (2 ^ nat (k + 1 - e))" using zlt pow2_nonneg_int [OF True] by simp
    then have "round_even z \<le> 2 ^ nat (k + 1 - e)" by (rule round_even_le)
    then have "real_of_int (round_even z) \<le> of_int (2 ^ nat (k + 1 - e))"
      using of_int_le_iff by blast
    then have "real_of_int (round_even z) \<le> pow2 (k + 1 - e)"
      using pow2_nonneg_int [OF True] by simp
    then have "fl x \<le> pow2 (k + 1 - e) * pow2 e"
      unfolding flx by (simp add: mult_right_mono)
    also have "\<dots> = pow2 (k + 1)" using pow2_add [of "k + 1 - e" e] by simp
    finally show ?thesis by (simp add: k_def)
  next
    case False
    then have "pow2 (k + 1 - e) \<le> pow2 (- 1)" by (intro pow2_mono) simp
    then have "z < 1 / 2" using zlt by (simp add: pow2_def)
    then have "\<lfloor>z\<rfloor> = 0" using zpos by (simp add: floor_eq_iff)
    then have "round_even z = 0" using \<open>z < 1 / 2\<close> by (simp add: round_even_def)
    then show ?thesis by (simp add: flx less_imp_le)
  qed
qed

lemma fl_lower:
  assumes "0 < x" "- 1022 \<le> ilog2 x"
  shows "pow2 (ilog2 x) \<le> fl x"
proof -
  define k where "k = ilog2 x"
  have e: "fexp x = k - 52" using assms by (simp add: fexp_pos k_def)
  define z where "z = x / pow2 (k - 52)"
  have flx: "fl x = of_int (round_even z) * pow2 (k - 52)"
    using assms by (simp add: fl_def e z_def)
  have "pow2 k \<le> x" using ilog2_bounds [OF assms(1)] by (simp add: k_def)
  then have "pow2 k / pow2 (k - 52) \<le> z" by (simp add: z_def divide_right_mono)
  moreover have "pow2 k / pow2 (k - 52) = pow2 52" using pow2_diff [of k "k - 52"] by simp
  ultimately have "of_int (2 ^ 52) \<le> z" by (simp add: pow2_def)
  then have "2 ^ 52 \<le> round_even z" by (rule round_even_ge)
  then have "real_of_int (2 ^ 52) \<le> of_int (round_even z)" using of_int_le_iff by blast
  then have "pow2 52 * pow2 (k - 52) \<le> fl x"
    unfolding flx by (simp add: pow2_def [of 52] mult_right_mono)
  moreover have "pow2 52 * pow2 (k - 52) = pow2 k" using pow2_add [of 52 "k - 52"] by simp
  ultimately show ?thesis by (simp add: k_def)
qed

lemma fl_mono_pos:
  assumes "0 < x" "x \<le> y"
  shows "fl x \<le> fl y"
proof -
  have y: "0 < y" using assms by simp
  have k: "ilog2 x \<le> ilog2 y" using assms by (rule ilog2_mono)
  show ?thesis
  proof (cases "fexp x = fexp y")
    case True
    have "x / pow2 (fexp y) \<le> y / pow2 (fexp y)" using assms(2) by (simp add: divide_right_mono)
    then have "round_even (x / pow2 (fexp y)) \<le> round_even (y / pow2 (fexp y))"
      by (rule round_even_mono)
    then have "real_of_int (round_even (x / pow2 (fexp y))) \<le> of_int (round_even (y / pow2 (fexp y)))"
      using of_int_le_iff by blast
    then show ?thesis using assms(1) y True by (simp add: fl_def mult_right_mono)
  next
    case False
    then have "ilog2 x + 1 \<le> ilog2 y" "- 1022 \<le> ilog2 y"
      using k by (auto simp: fexp_pos [OF assms(1)] fexp_pos [OF y] max_def split: if_splits)
    then have "fl x \<le> pow2 (ilog2 y)" "pow2 (ilog2 y) \<le> fl y"
      using fl_upper [OF assms(1)] fl_lower [OF y] pow2_mono [of "ilog2 x + 1" "ilog2 y"] by auto
    then show ?thesis by simp
  qed
qed

lemma fl_mono:
  assumes "x \<le> y"
  shows "fl x \<le> fl y"
proof -
  consider "0 < x" | "x \<le> 0" "0 \<le> y" | "y < 0" by linarith
  then show ?thesis
  proof cases
    case 1
    then show ?thesis using assms by (rule fl_mono_pos)
  next
    case 2
    then have "fl x \<le> 0" "0 \<le> fl y"
      using fl_nonneg [of "- x"] fl_nonneg [of y] by (simp_all add: fl_minus)
    then show ?thesis by simp
  next
    case 3
    then have "fl (- y) \<le> fl (- x)" using assms by (intro fl_mono_pos) simp_all
    then show ?thesis by (simp add: fl_minus)
  qed
qed

lemma fl_error: "\<bar>fl x - x\<bar> \<le> pow2 (fexp x) / 2"
proof (cases "x = 0")
  case True
  then show ?thesis by (simp add: less_imp_le)
next
  case False
  define e where "e = fexp x"
  define z where "z = x / pow2 e"
  have "fl x - x = (of_int (round_even z) - z) * pow2 e"
    using False by (simp add: fl_def e_def z_def algebra_simps)
  then have "\<bar>fl x - x\<bar> = \<bar>of_int (round_even z) - z\<bar> * pow2 e"
    by (simp add: abs_mult)
  also have "\<dots> \<le> (1 / 2) * pow2 e"
    using round_even_error [of z] by (intro mult_right_mono) (simp_all add: less_imp_le)
  finally show ?thesis by (simp add: e_def)
qed

subsection \<open>Representable numbers are fixed\<close>

lemma ilog2_scale:
  assumes "0 < x"
  shows "ilog2 (x * pow2 e) = ilog2 x + e"
proof (rule ilog2_unique)
  show "pow2 (ilog2 x + e) \<le> x * pow2 e"
    using ilog2_bounds [OF assms] by (simp add: pow2_add mult_right_mono)
  show "x * pow2 e < pow2 (ilog2 x + e + 1)"
    using ilog2_bounds [OF assms] pow2_add [of "ilog2 x + 1" e]
    by (simp add: mult_strict_right_mono add.commute add.left_commute)
qed

lemma ilog2_of_int_le:
  assumes "0 < m" "m \<le> 2 ^ 53"
  shows "ilog2 (of_int m) \<le> 53" "ilog2 (of_int m) = 53 \<Longrightarrow> m = 2 ^ 53" "0 \<le> ilog2 (of_int m)"
proof -
  have pos: "0 < real_of_int m" using assms by simp
  note b = ilog2_bounds [OF pos]
  have "real_of_int m \<le> pow2 53" using assms(2) of_int_le_iff [of m "2 ^ 53", where ?'a = real]
    by (simp add: pow2_def)
  then have "pow2 (ilog2 (of_int m)) < pow2 54"
    using b pow2_strict_mono [of 53 54] by linarith
  then show le: "ilog2 (of_int m) \<le> 53"
    using pow2_mono [of 54 "ilog2 (of_int m)"] by fastforce
  show "m = 2 ^ 53" if "ilog2 (of_int m) = 53"
  proof -
    have "pow2 53 \<le> of_int m" using b that by simp
    then have "real_of_int (2 ^ 53) \<le> of_int m" by (simp add: pow2_def)
    then have "2 ^ 53 \<le> m" using of_int_le_iff by blast
    then show ?thesis using assms(2) by simp
  qed
  have "1 \<le> real_of_int m" using assms(1) by simp
  then have "pow2 0 < pow2 (ilog2 (of_int m) + 1)" using b by simp
  then show "0 \<le> ilog2 (of_int m)"
    using pow2_mono [of "ilog2 (of_int m) + 1" 0] by fastforce
qed

lemma fl_exact_pos:
  assumes "0 < m" "m \<le> 2 ^ 53" "- 1074 \<le> e"
  shows "fl (of_int m * pow2 e) = of_int m * pow2 e"
proof -
  define d where "d = real_of_int m * pow2 e"
  define km where "km = ilog2 (of_int m)"
  have mpos: "0 < real_of_int m" using assms by simp
  have dpos: "0 < d" using mpos by (simp add: d_def)
  have kd: "ilog2 d = km + e" unfolding d_def km_def using mpos by (rule ilog2_scale)
  define f where "f = fexp d"
  have f: "f = max (km + e - 52) (- 1074)" by (simp add: f_def fexp_pos [OF dpos] kd)
  note k = ilog2_of_int_le [OF assms(1,2), folded km_def]
  have "\<exists>N. d / pow2 f = of_int N"
  proof (cases "km = 53")
    case True
    then have m: "m = 2 ^ 53" by (rule k(2))
    have "f = e + 1" using True assms(3) by (simp add: f)
    then have "d / pow2 f = real_of_int m * (pow2 e / pow2 (e + 1))" by (simp add: d_def)
    also have "pow2 e / pow2 (e + 1) = 1 / 2" using pow2_add [of e 1] by (simp add: pow2_def [of 1])
    finally have "d / pow2 f = of_int (2 ^ 52)" by (simp add: m)
    then show ?thesis by blast
  next
    case False
    then have "f \<le> e" using k(1) assms(3) by (simp add: f)
    then have "pow2 (e - f) = of_int (2 ^ nat (e - f))" by (intro pow2_nonneg_int) simp
    moreover have "d / pow2 f = real_of_int m * pow2 (e - f)" by (simp add: d_def pow2_diff)
    ultimately have "d / pow2 f = of_int (m * 2 ^ nat (e - f))" by simp
    then show ?thesis by blast
  qed
  then obtain N where N: "d / pow2 f = of_int N" ..
  have "fl d = of_int (round_even (d / pow2 f)) * pow2 f"
    using dpos by (simp add: fl_def f_def)
  also have "\<dots> = (d / pow2 f) * pow2 f" by (simp add: N)
  also have "\<dots> = d" by simp
  finally show ?thesis by (simp add: d_def)
qed

lemma fl_exact:
  assumes "\<bar>m\<bar> \<le> 2 ^ 53" "- 1074 \<le> e"
  shows "fl (of_int m * pow2 e) = of_int m * pow2 e"
proof -
  consider "m = 0" | "0 < m" | "m < 0" by linarith
  then show ?thesis
  proof cases
    case 1
    then show ?thesis by simp
  next
    case 2
    then show ?thesis using assms by (intro fl_exact_pos) simp_all
  next
    case 3
    then have "fl (of_int (- m) * pow2 e) = of_int (- m) * pow2 e"
      using assms by (intro fl_exact_pos) simp_all
    then show ?thesis using fl_minus [of "of_int m * pow2 e"] by simp
  qed
qed

lemma fl_repr_pos:
  assumes "0 < x"
  shows "\<exists>m e. fl x = of_int m * pow2 e \<and> \<bar>m\<bar> \<le> 2 ^ 53 \<and> - 1074 \<le> e"
proof -
  define e where "e = fexp x"
  define z where "z = x / pow2 e"
  define M where "M = round_even z"
  have flx: "fl x = of_int M * pow2 e" using assms by (simp add: fl_def e_def z_def M_def)
  have e: "- 1074 \<le> e" "ilog2 x + 1 - e \<le> 53" by (simp_all add: e_def fexp_pos [OF assms])
  have "x < pow2 (ilog2 x + 1)" using ilog2_bounds [OF assms] by simp
  then have "z < pow2 (ilog2 x + 1 - e)" by (simp add: z_def pow2_diff divide_strict_right_mono)
  also have "\<dots> \<le> pow2 53" using e(2) by (rule pow2_mono)
  finally have "z \<le> of_int (2 ^ 53)" by (simp add: pow2_def)
  then have "M \<le> 2 ^ 53" unfolding M_def by (rule round_even_le)
  moreover have "0 \<le> M" unfolding M_def using assms by (intro round_even_ge) (simp add: z_def)
  ultimately show ?thesis using flx e(1) by (intro exI [of _ M] exI [of _ e]) simp
qed

lemma fl_repr: "\<exists>m e. fl x = of_int m * pow2 e \<and> \<bar>m\<bar> \<le> 2 ^ 53 \<and> - 1074 \<le> e"
proof -
  consider "x = 0" | "0 < x" | "x < 0" by linarith
  then show ?thesis
  proof cases
    case 1
    then show ?thesis by (intro exI [of _ 0]) simp
  next
    case 2
    then show ?thesis by (rule fl_repr_pos)
  next
    case 3
    then obtain m e where "fl (- x) = of_int m * pow2 e" "\<bar>m\<bar> \<le> 2 ^ 53" "- 1074 \<le> e"
      using fl_repr_pos [of "- x"] by auto
    then show ?thesis by (intro exI [of _ "- m"] exI [of _ e]) (simp add: fl_minus)
  qed
qed

lemma fl_idem [simp]: "fl (fl x) = fl x"
proof -
  obtain m e where "fl x = of_int m * pow2 e" "\<bar>m\<bar> \<le> 2 ^ 53" "- 1074 \<le> e"
    using fl_repr [of x] by auto
  then show ?thesis using fl_exact [of m e] by simp
qed

lemma fl_of_int: "\<bar>n\<bar> \<le> 2 ^ 53 \<Longrightarrow> fl (of_int n) = of_int n"
  using fl_exact [of n 0] by simp

lemma fl_le: "x \<le> c \<Longrightarrow> fl c = c \<Longrightarrow> fl x \<le> c"
  using fl_mono [of x c] by simp

lemma fl_ge: "c \<le> x \<Longrightarrow> fl c = c \<Longrightarrow> c \<le> fl x"
  using fl_mono [of c x] by simp

lemma fl_max_double: "fl max_double = max_double"
  using fl_exact [of "2 ^ 53 - 1" 971] by (simp add: max_double_def pow2_def)

lemma rnd_finite: "\<bar>x\<bar> \<le> max_double \<Longrightarrow> rnd x = Fin (fl x)"
  using fl_le [of x max_double] fl_ge [of "- max_double" x] fl_max_double
  by (simp add: rnd_def fl_minus abs_le_iff)

subsection \<open>Finite results\<close>

lemma bnd_simps [simp]: "bnd (Inl e) f = Inl e" "bnd (Inr v) f = f v"
  by (simp_all add: bnd_def)

lemma max_double_ge: "2 ^ 1023 \<le> max_double"
  by (simp add: max_double_def)

lemma rnd_small: "\<bar>x\<bar> \<le> 2 ^ 1023 \<Longrightarrow> rnd x = Fin (fl x)"
  using max_double_ge by (intro rnd_finite) linarith

lemma rnd_0 [simp]: "rnd 0 = Fin 0"
  by (simp add: rnd_small)

lemma rnd_of_int: "\<bar>n\<bar> \<le> 2 ^ 53 \<Longrightarrow> rnd (of_int n) = Fin (of_int n)"
proof -
  assume n: "\<bar>n\<bar> \<le> 2 ^ 53"
  then have "\<bar>real_of_int n\<bar> \<le> 2 ^ 53"
    using of_int_le_iff [of "\<bar>n\<bar>" "2 ^ 53", where ?'a = real] by simp
  then have "\<bar>real_of_int n\<bar> \<le> 2 ^ 1023" by simp
  then show ?thesis using n by (simp add: rnd_small fl_of_int)
qed

lemma to_float_small: "\<bar>n\<bar> \<le> 2 ^ 53 \<Longrightarrow> to_float (PInt n) = Inr (Fin (of_int n))"
  by (simp add: rnd_of_int)

section \<open>Evaluation of concrete numbers\<close>

lemmas fl_eval = fl_def fexp_def ilog2_def round_even_def pow2_def compute_bitlen

lemmas num_eval = bnd_def rnd_def max_double_def trunc_def dbl_def fsub_def num_lt_def
  py_max_def py_min_def

lemma zoom_in_value:
  "mk_motion 1 (13/10) (1/2) (1/2) (1/2) (1/2) =
     \<lparr>start_scale = PFloat (Fin 1),
      end_scale = PFloat (Fin (5854679515581645 / 4503599627370496)),
      start_x = PFloat (Fin (1/2)), end_x = PFloat (Fin (1/2)),
      start_y = PFloat (Fin (1/2)), end_y = PFloat (Fin (1/2))\<rparr>"
  by (simp add: mk_motion_def fl_eval num_eval)

lemma zoom_in_item:
  "preset_item ''zoom_in'' = Inr (mk_motion 1 (13/10) (1/2) (1/2) (1/2) (1/2))"
  by (simp add: preset_item_def MOTION_PRESETS_def)

lemma dbl_values:
  "dbl 1 = PFloat (Fin 1)"
  "dbl 2 = PFloat (Fin 2)"
  "dbl (1/2) = PFloat (Fin (1/2))"
  "dbl (1/10) = PFloat (Fin (3602879701896397 / 36028797018963968))"
  "dbl (3/10) = PFloat (Fin (5404319552844595 / 18014398509481984))"
  "dbl (7/10) = PFloat (Fin (3152519739159347 / 4503599627370496))"
  "dbl (11/10) = PFloat (Fin (2476979795053773 / 2251799813685248))"
  "dbl (6/5) = PFloat (Fin (5404319552844595 / 4503599627370496))"
  "dbl (13/10) = PFloat (Fin (5854679515581645 / 4503599627370496))"
  "dbl (7/5) = PFloat (Fin (3152519739159347 / 2251799813685248))"
  "dbl (23/20) = PFloat (Fin (2589569785738035 / 2251799813685248))"
  "dbl (9/20) = PFloat (Fin (8106479329266893 / 18014398509481984))"
  "dbl (11/20) = PFloat (Fin (2476979795053773 / 4503599627370496))"
  "dbl (12/25) = PFloat (Fin (1080863910568919 / 2251799813685248))"
  "dbl (13/25) = PFloat (Fin (1170935903116329 / 2251799813685248))"
  by (simp_all add: fl_eval num_eval)

lemma presets_moderate_exact:
  "\<forall>(name, p) \<in> set MOTION_PRESETS. moderate_spec p \<and> exact_spec p"
  apply (simp add: MOTION_PRESETS_def mk_motion_def dbl_values moderate_spec_def exact_spec_def
      exact_diff_def)
  apply (simp add: fl_eval)
  done

section \<open>The preset catalog\<close>

text \<open>
  Claim C9. For every preset name, the lookup returns a motion spec and never raises:
  a name of the catalog (whose keys are distinct) gives its entry, and every other name
  gives the \<^verbatim>\<open>zoom_in\<close> entry, whose scale goes from 1.0 to the float nearest 1.3 with
  the centre fixed at 0.5/0.5.
\<close>

theorem preset_get_total:
  "distinct (map fst MOTION_PRESETS) \<and>
   preset_get name =
     Inr (case map_of MOTION_PRESETS name of
            Some m \<Rightarrow> m
          | None \<Rightarrow>
              \<lparr>start_scale = PFloat (Fin 1),
               end_scale = PFloat (Fin (5854679515581645 / 4503599627370496)),
               start_x = PFloat (Fin (1/2)), end_x = PFloat (Fin (1/2)),
               start_y = PFloat (Fin (1/2)), end_y = PFloat (Fin (1/2))\<rparr>)"
proof
  show "distinct (map fst MOTION_PRESETS)"
    by (simp add: MOTION_PRESETS_def)
  show "preset_get name =
     Inr (case map_of MOTION_PRESETS name of
            Some m \<Rightarrow> m
          | None \<Rightarrow>
              \<lparr>start_scale = PFloat (Fin 1),
               end_scale = PFloat (Fin (5854679515581645 / 4503599627370496)),
               start_x = PFloat (Fin (1/2)), end_x = PFloat (Fin (1/2)),
               start_y = PFloat (Fin (1/2)), end_y = PFloat (Fin (1/2))\<rparr>)"
    by (simp add: preset_get_def zoom_in_item bnd_def zoom_in_value split: option.split)
qed

section \<open>The first and the last frame\<close>

lemma frame_progress_first: "frame_progress 0 N = Inr (PFloat (Fin 0))"
  using to_float_small [of 2] to_float_small [of 3] rnd_of_int [of 3]
  by (simp add: frame_progress_def ease_in_out_def fsub_def)

lemma frame_progress_last:
  assumes "2 \<le> N"
  shows "frame_progress (N - 1) N = Inr (PFloat (Fin 1))"
proof -
  have "real_of_int (N - 1) / real_of_int (N - 1) = 1" using assms by simp
  then have "num_truediv (PInt (N - 1)) (PInt (max (N - 1) 1)) = Inr (PFloat (Fin 1))"
    using assms rnd_of_int [of 1] by (simp add: max_def)
  then show ?thesis
    using to_float_small [of 2] to_float_small [of 3] rnd_of_int [of 1] rnd_of_int [of 2]
    by (simp add: frame_progress_def ease_in_out_def fsub_def)
qed

lemma fl_abs_le: "\<bar>x\<bar> \<le> c \<Longrightarrow> fl c = c \<Longrightarrow> \<bar>fl x\<bar> \<le> c"
  using fl_le [of x c] fl_ge [of "- c" x] by (simp add: fl_minus abs_le_iff)

lemma fl_pow2_nat: "n \<le> 1023 \<Longrightarrow> fl (2 ^ n) = 2 ^ n"
  using fl_exact [of 1 "int n"] by (simp add: pow2_def)

lemma moderate_real:
  assumes "moderate a"
  shows "fl (num_real a) = num_real a" and "\<bar>num_real a\<bar> \<le> 2 ^ 960"
    and "as_float a = PFloat (Fin (num_real a))"
  using assms by (auto elim!: moderate.elims)

lemma moderate_int: "\<bar>n\<bar> \<le> 2 ^ 53 \<Longrightarrow> moderate (PInt n)"
proof -
  assume n: "\<bar>n\<bar> \<le> 2 ^ 53"
  then have "\<bar>real_of_int n\<bar> \<le> 2 ^ 53"
    using of_int_le_iff [of "\<bar>n\<bar>" "2 ^ 53", where ?'a = real] by simp
  then have "\<bar>real_of_int n\<bar> \<le> 2 ^ 960" by simp
  then show ?thesis using fl_of_int [OF n] by simp
qed

lemma to_float_moderate:
  assumes "moderate a"
  shows "to_float a = Inr (Fin (num_real a))"
proof (cases a)
  case (PInt n)
  then have n: "fl (of_int n) = of_int n" "\<bar>real_of_int n\<bar> \<le> 2 ^ 960" using assms by simp_all
  from n(2) have "\<bar>real_of_int n\<bar> \<le> 2 ^ 1023" by simp
  then show ?thesis using n(1) by (simp add: PInt rnd_small)
next
  case (PFloat x)
  then show ?thesis using assms by (cases x) simp_all
qed

lemma num_sub_moderate:
  assumes "moderate a" "moderate b"
  shows "\<exists>d. num_sub b a = Inr d \<and> to_float d = Inr (Fin (fl (num_real b - num_real a)))"
proof -
  define x where "x = num_real a"
  define y where "y = num_real b"
  have "\<bar>y - x\<bar> \<le> 2 ^ 960 + 2 ^ 960"
    using moderate_real(2) [OF assms(1)] moderate_real(2) [OF assms(2)]
    unfolding x_def y_def by linarith
  then have d: "\<bar>y - x\<bar> \<le> 2 ^ 1023" by simp
  have fa: "to_float a = Inr (Fin x)" and fb: "to_float b = Inr (Fin y)"
    using assms by (simp_all add: to_float_moderate x_def y_def)
  show ?thesis
  proof (cases "(\<exists>m. a = PInt m) \<and> (\<exists>n. b = PInt n)")
    case True
    then obtain m n where mn: "a = PInt m" "b = PInt n" by blast
    have "real_of_int (n - m) = y - x" by (simp add: x_def y_def mn)
    then have "to_float (PInt (n - m)) = Inr (Fin (fl (y - x)))"
      using d by (simp add: rnd_small del: of_int_diff)
    then show ?thesis by (simp add: mn x_def y_def)
  next
    case False
    then have "num_sub b a = bnd (to_float b) (\<lambda>u. bnd (to_float a) (\<lambda>v. Inr (PFloat (fsub u v))))"
      by (cases a; cases b) simp_all
    then have "num_sub b a = Inr (PFloat (Fin (fl (y - x))))"
      using d by (simp add: fa fb fsub_def rnd_small)
    then show ?thesis by (simp add: x_def y_def)
  qed
qed

lemma interpolate_moderate:
  assumes "moderate a" "moderate b"
  shows "interpolate a b (PFloat (Fin t)) =
     Inr (PFloat (fadd (Fin (num_real a)) (fmul (Fin (fl (num_real b - num_real a))) (Fin t))))"
proof -
  obtain d where d: "num_sub b a = Inr d"
    "to_float d = Inr (Fin (fl (num_real b - num_real a)))"
    using num_sub_moderate [OF assms] by blast
  have m: "num_mul d (PFloat (Fin t)) =
      Inr (PFloat (fmul (Fin (fl (num_real b - num_real a))) (Fin t)))"
    using d(2) by (cases d) (simp_all del: to_float.simps(2))
  have ad: "num_add a (PFloat u) = Inr (PFloat (fadd (Fin (num_real a)) u))" for u
    using to_float_moderate [OF assms(1)] by (cases a) (simp_all del: to_float.simps(2))
  show ?thesis by (simp only: interpolate_def d(1) bnd_simps m ad)
qed

lemma interpolate_first:
  assumes "moderate a" "moderate b"
  shows "interpolate a b (PFloat (Fin 0)) = Inr (as_float a)"
proof -
  have "\<bar>num_real a\<bar> \<le> 2 ^ 1023" using moderate_real(2) [OF assms(1)] by simp
  then show ?thesis
    by (simp add: interpolate_moderate [OF assms] rnd_small moderate_real(1,3) [OF assms(1)])
qed

lemma interpolate_last:
  assumes "moderate a" "moderate b"
  shows "interpolate a b (PFloat (Fin 1)) = Inr (lerp_end a b)"
proof -
  define x where "x = num_real a"
  define y where "y = num_real b"
  have a: "\<bar>x\<bar> \<le> 2 ^ 960" and b: "\<bar>y\<bar> \<le> 2 ^ 960"
    using moderate_real(2) [OF assms(1)] moderate_real(2) [OF assms(2)]
    by (simp_all add: x_def y_def)
  have "\<bar>y - x\<bar> \<le> 2 ^ 960 + 2 ^ 960" using a b by linarith
  then have d: "\<bar>y - x\<bar> \<le> 2 ^ 961" by simp
  have p: "fl (2 ^ 961) = 2 ^ 961" by (rule fl_pow2_nat) simp
  have fd: "\<bar>fl (y - x)\<bar> \<le> 2 ^ 961" using d p by (rule fl_abs_le)
  then have fd': "\<bar>fl (y - x)\<bar> \<le> 2 ^ 1023" by simp
  have "\<bar>x + fl (y - x)\<bar> \<le> 2 ^ 960 + 2 ^ 961" using a fd by linarith
  then have s: "\<bar>x + fl (y - x)\<bar> \<le> 2 ^ 1023" by simp
  have "interpolate a b (PFloat (Fin 1)) =
      Inr (PFloat (fadd (Fin x) (fmul (Fin (fl (y - x))) (Fin 1))))"
    unfolding x_def y_def by (rule interpolate_moderate [OF assms])
  then show ?thesis
    using fd' s by (simp add: rnd_small lerp_end_def x_def y_def)
qed

lemma lerp_end_exact:
  assumes "moderate a" "moderate b" "fl (num_real b - num_real a) = num_real b - num_real a"
  shows "lerp_end a b = as_float b"
  using assms(3) moderate_real(1,3) [OF assms(2)] by (simp add: lerp_end_def)

lemma lerp_end_exact_diff:
  "moderate a \<Longrightarrow> moderate b \<Longrightarrow> exact_diff a b \<Longrightarrow> lerp_end a b = as_float b"
  by (rule lerp_end_exact) (simp_all add: exact_diff_def)

lemma int_spec_moderate_exact: "moderate_spec int_spec \<and> exact_spec int_spec"
proof -
  have "moderate (PInt 1)" "moderate (PInt 2)" "moderate (PInt 0)"
    by (rule moderate_int, simp)+
  moreover have "fl 1 = 1" "fl 2 = 2" "fl (1/2) = 1/2"
    using fl_of_int [of 1] fl_of_int [of 2] fl_exact [of 1 "- 1"] by (simp_all add: pow2_def)
  ultimately show ?thesis
    by (simp add: int_spec_def moderate_spec_def exact_spec_def exact_diff_def dbl_values)
qed

lemma int_motion_spec: "select_motion (Some int_motion) name = Inr int_spec"
  by (simp add: select_motion_def int_motion_def int_spec_def custom_get_def)

text \<open>
  Claim C1, as amended. For every motion spec whose six fields are finite floats, or
  ints that a float represents exactly, of magnitude at most \<open>2\<^sup>9\<^sup>6\<^sup>0\<close>, and every
  \<open>total_frames\<close> \<open>N\<close>: at frame index 0 the interpolation factor is 0 and the state is
  exactly the start state, as floats (also when \<open>N = 1\<close>); for \<open>N \<ge> 2\<close>, at frame index
  \<open>N - 1\<close> the factor is exactly 1 and each parameter is \<^verbatim>\<open>start + (end - start)\<close> in
  float arithmetic, which is the end value whenever the difference \<^verbatim>\<open>end - start\<close> is
  itself a float. All twelve catalog presets are of this kind, and every int of
  magnitude up to \<open>2\<^sup>5\<^sup>3\<close> is a field of the kind required.
\<close>

theorem motion_state_endpoints:
  assumes "moderate_spec m"
  shows "frame_progress 0 N = Inr (PFloat (Fin 0)) \<and>
     motion_state 0 N m =
       Inr \<lparr>scale = as_float (start_scale m), cx = as_float (start_x m),
            cy = as_float (start_y m)\<rparr> \<and>
     (2 \<le> N \<longrightarrow>
        frame_progress (N - 1) N = Inr (PFloat (Fin 1)) \<and>
        motion_state (N - 1) N m =
          Inr \<lparr>scale = lerp_end (start_scale m) (end_scale m),
               cx = lerp_end (start_x m) (end_x m),
               cy = lerp_end (start_y m) (end_y m)\<rparr> \<and>
        (exact_spec m \<longrightarrow>
           motion_state (N - 1) N m =
             Inr \<lparr>scale = as_float (end_scale m), cx = as_float (end_x m),
                  cy = as_float (end_y m)\<rparr>)) \<and>
     (\<forall>(name, p) \<in> set MOTION_PRESETS. moderate_spec p \<and> exact_spec p) \<and>
     (\<forall>n. \<bar>n\<bar> \<le> 2 ^ 53 \<longrightarrow> moderate (PInt n))"
proof -
  have m: "moderate (start_scale m)" "moderate (end_scale m)" "moderate (start_x m)"
    "moderate (end_x m)" "moderate (start_y m)" "moderate (end_y m)"
    using assms by (simp_all add: moderate_spec_def)
  have first: "motion_state 0 N m =
       Inr \<lparr>scale = as_float (start_scale m), cx = as_float (start_x m),
            cy = as_float (start_y m)\<rparr>"
    by (simp add: motion_state_def frame_progress_first interpolate_first m)
  have last: "motion_state (N - 1) N m =
          Inr \<lparr>scale = lerp_end (start_scale m) (end_scale m),
               cx = lerp_end (start_x m) (end_x m),
               cy = lerp_end (start_y m) (end_y m)\<rparr>" if "2 \<le> N"
    by (simp add: motion_state_def frame_progress_last [OF that] interpolate_last m)
  have exact: "motion_state (N - 1) N m =
             Inr \<lparr>scale = as_float (end_scale m), cx = as_float (end_x m),
                  cy = as_float (end_y m)\<rparr>"
    if "2 \<le> N" "exact_spec m"
    using that(2) by (simp add: last [OF that(1)] exact_spec_def lerp_end_exact_diff m)
  have ints: "\<forall>n. \<bar>n\<bar> \<le> 2 ^ 53 \<longrightarrow> moderate (PInt n)"
    using moderate_int by blast
  show ?thesis
    using first last exact frame_progress_first frame_progress_last presets_moderate_exact ints
    by blast
qed

text \<open>
  The \<^verbatim>\<open>zoom_in\<close> preset, and the custom motion with the integer values
  \<^verbatim>\<open>start_scale = 1\<close>, \<^verbatim>\<open>end_scale = 2\<close>, \<^verbatim>\<open>start_x = 0\<close> and \<^verbatim>\<open>end_x = 1\<close>, over
  twelve frames.
\<close>

theorem motion_state_endpoints_witness:
  "moderate_spec (mk_motion 1 (13/10) (1/2) (1/2) (1/2) (1/2)) \<and>
   exact_spec (mk_motion 1 (13/10) (1/2) (1/2) (1/2) (1/2)) \<and>
   motion_state 0 12 (mk_motion 1 (13/10) (1/2) (1/2) (1/2) (1/2)) =
     Inr \<lparr>scale = PFloat (Fin 1), cx = PFloat (Fin (1/2)), cy = PFloat (Fin (1/2))\<rparr> \<and>
   frame_progress 11 12 = Inr (PFloat (Fin 1)) \<and>
   motion_state 11 12 (mk_motion 1 (13/10) (1/2) (1/2) (1/2) (1/2)) =
     Inr \<lparr>scale = PFloat (Fin (5854679515581645 / 4503599627370496)),
          cx = PFloat (Fin (1/2)), cy = PFloat (Fin (1/2))\<rparr> \<and>
   select_motion (Some int_motion) ''zoom_in'' = Inr int_spec \<and>
   moderate_spec int_spec \<and> exact_spec int_spec \<and>
   motion_state 0 12 int_spec =
     Inr \<lparr>scale = PFloat (Fin 1), cx = PFloat (Fin 0), cy = PFloat (Fin (1/2))\<rparr> \<and>
   motion_state 11 12 int_spec =
     Inr \<lparr>scale = PFloat (Fin 2), cx = PFloat (Fin 1), cy = PFloat (Fin (1/2))\<rparr>"
proof -
  define M where "M = mk_motion 1 (13/10) (1/2) (1/2) (1/2) (1/2)"
  have h: "moderate_spec M" and e: "exact_spec M"
    using presets_moderate_exact by (simp_all add: MOTION_PRESETS_def M_def)
  have n: "(2::int) \<le> 12" by simp
  from motion_state_endpoints [OF h, of 12] e n
  have "motion_state 0 12 M =
      Inr \<lparr>scale = as_float (start_scale M), cx = as_float (start_x M),
           cy = as_float (start_y M)\<rparr>"
    and "frame_progress (12 - 1) 12 = Inr (PFloat (Fin 1))"
    and "motion_state (12 - 1) 12 M =
      Inr \<lparr>scale = as_float (end_scale M), cx = as_float (end_x M),
           cy = as_float (end_y M)\<rparr>"
    by blast+
  then have zoom: "motion_state 0 12 M =
       Inr \<lparr>scale = PFloat (Fin 1), cx = PFloat (Fin (1/2)), cy = PFloat (Fin (1/2))\<rparr>"
    "frame_progress 11 12 = Inr (PFloat (Fin 1))"
    "motion_state 11 12 M =
       Inr \<lparr>scale = PFloat (Fin (5854679515581645 / 4503599627370496)),
            cx = PFloat (Fin (1/2)), cy = PFloat (Fin (1/2))\<rparr>"
    by (simp_all add: M_def zoom_in_value)
  have hi: "moderate_spec int_spec" and ei: "exact_spec int_spec"
    using int_spec_moderate_exact by simp_all
  from motion_state_endpoints [OF hi, of 12] ei n
  have "motion_state 0 12 int_spec =
      Inr \<lparr>scale = as_float (start_scale int_spec), cx = as_float (start_x int_spec),
           cy = as_float (start_y int_spec)\<rparr>"
    and "motion_state (12 - 1) 12 int_spec =
      Inr \<lparr>scale = as_float (end_scale int_spec), cx = as_float (end_x int_spec),
           cy = as_float (end_y int_spec)\<rparr>"
    by blast+
  then have ints: "motion_state 0 12 int_spec =
       Inr \<lparr>scale = PFloat (Fin 1), cx = PFloat (Fin 0), cy = PFloat (Fin (1/2))\<rparr>"
    "motion_state 11 12 int_spec =
       Inr \<lparr>scale = PFloat (Fin 2), cx = PFloat (Fin 1), cy = PFloat (Fin (1/2))\<rparr>"
    by (simp_all add: int_spec_def dbl_values)
  show ?thesis
    using h e zoom hi ei ints int_motion_spec [of "''zoom_in''"] unfolding M_def by blast
qed

text \<open>
  Claim C1 as stated fails: with \<^verbatim>\<open>start_x = 1.0\<close> and \<^verbatim>\<open>end_x = 0.1\<close> the last of two
  frames has \<^verbatim>\<open>cx = 1.0 + (0.1 - 1.0) * 1.0 = 0.09999999999999998\<close>, not \<^verbatim>\<open>0.1\<close>, and
  on a 20 by 20 image at scale 2 its crop window starts at column 0, where the end
  state's window starts at column 1.
\<close>

theorem last_frame_misses_end_state:
  "motion_state 1 2 (mk_motion 2 2 1 (1/10) (1/2) (1/2)) =
     Inr \<lparr>scale = PFloat (Fin 2),
          cx = PFloat (Fin (900719925474099 / 9007199254740992)),
          cy = PFloat (Fin (1/2))\<rparr> \<and>
   end_x (mk_motion 2 2 1 (1/10) (1/2) (1/2)) =
     PFloat (Fin (3602879701896397 / 36028797018963968)) \<and>
   crop_window 20 20
     \<lparr>scale = PFloat (Fin 2), cx = PFloat (Fin (900719925474099 / 9007199254740992)),
      cy = PFloat (Fin (1/2))\<rparr> =
     Inr \<lparr>crop_w = 10, crop_h = 10, x1 = 0, y1 = 5, x2 = 10, y2 = 15\<rparr> \<and>
   crop_window 20 20
     \<lparr>scale = PFloat (Fin 2), cx = PFloat (Fin (3602879701896397 / 36028797018963968)),
      cy = PFloat (Fin (1/2))\<rparr> =
     Inr \<lparr>crop_w = 10, crop_h = 10, x1 = 1, y1 = 5, x2 = 10 + 1, y2 = 15\<rparr>"
proof -
  have t: "frame_progress 1 2 = Inr (PFloat (Fin 1))"
    using frame_progress_last [of 2] by simp
  have s: "motion_state 1 2 (mk_motion 2 2 1 (1/10) (1/2) (1/2)) =
     Inr \<lparr>scale = PFloat (Fin 2),
          cx = PFloat (Fin (900719925474099 / 9007199254740992)),
          cy = PFloat (Fin (1/2))\<rparr>"
    unfolding motion_state_def t mk_motion_def dbl_values
    by (simp add: interpolate_def fl_eval num_eval)
  have e: "end_x (mk_motion 2 2 1 (1/10) (1/2) (1/2)) =
     PFloat (Fin (3602879701896397 / 36028797018963968))"
    by (simp add: mk_motion_def dbl_values)
  have c1: "crop_window 20 20
     \<lparr>scale = PFloat (Fin 2), cx = PFloat (Fin (900719925474099 / 9007199254740992)),
      cy = PFloat (Fin (1/2))\<rparr> =
     Inr \<lparr>crop_w = 10, crop_h = 10, x1 = 0, y1 = 5, x2 = 10, y2 = 15\<rparr>"
    by (simp add: crop_window_def fl_eval num_eval)
  have c2: "crop_window 20 20
     \<lparr>scale = PFloat (Fin 2), cx = PFloat (Fin (3602879701896397 / 36028797018963968)),
      cy = PFloat (Fin (1/2))\<rparr> =
     Inr \<lparr>crop_w = 10, crop_h = 10, x1 = 1, y1 = 5, x2 = 10 + 1, y2 = 15\<rparr>"
    by (simp add: crop_window_def fl_eval num_eval)
  from s e c1 c2 show ?thesis by blast
qed

section \<open>The size of the crop window\<close>

lemma trunc_ge: "of_int n \<le> x \<Longrightarrow> 0 \<le> n \<Longrightarrow> n \<le> trunc x"
  by (auto simp: trunc_def le_floor_iff)

lemma trunc_le: "x \<le> of_int n \<Longrightarrow> 0 \<le> x \<Longrightarrow> trunc x \<le> n"
  by (simp add: trunc_def floor_le_iff)

lemma trunc_nonpos: "x \<le> 0 \<Longrightarrow> trunc x \<le> 0"
  by (auto simp: trunc_def ceiling_le_iff)

lemma trunc_lt_1: "0 \<le> x \<Longrightarrow> x < 1 \<Longrightarrow> trunc x = 0"
  by (simp add: trunc_def floor_eq_iff)

lemma int_ulp:
  assumes "1 \<le> w" "w \<le> 2 ^ 52"
  shows "ilog2 (of_int w) \<le> 52"
    and "\<exists>W. real_of_int w = of_int W * pow2 (ilog2 (of_int w) - 52)"
    and "real_of_int w \<le> (2 ^ 53 - 1) * pow2 (ilog2 (of_int w) - 52)"
proof -
  define k where "k = ilog2 (real_of_int w)"
  have pos: "0 < real_of_int w" using assms by simp
  note b = ilog2_bounds [OF pos, folded k_def]
  have "real_of_int w \<le> pow2 52"
    using assms(2) of_int_le_iff [of w "2 ^ 52", where ?'a = real] by (simp add: pow2_def)
  then have "pow2 k < pow2 53" using b pow2_strict_mono [of 52 53] by linarith
  then show k: "k \<le> 52" using pow2_mono [of 53 k] by fastforce
  define W where "W = w * 2 ^ nat (52 - k)"
  have "pow2 (52 - k) = of_int (2 ^ nat (52 - k))" using k by (intro pow2_nonneg_int) simp
  then have "real_of_int W * pow2 (k - 52) = of_int w * (pow2 (52 - k) * pow2 (k - 52))"
    by (simp add: W_def)
  also have "pow2 (52 - k) * pow2 (k - 52) = 1" using pow2_add [of "52 - k" "k - 52"] by simp
  finally have W: "real_of_int w = of_int W * pow2 (k - 52)" by simp
  then show "\<exists>W. real_of_int w = of_int W * pow2 (k - 52)" ..
  have e: "pow2 (k + 1) = pow2 53 * pow2 (k - 52)"
    using pow2_add [of 53 "k - 52"] by (simp add: add.commute)
  have "real_of_int w < pow2 (k + 1)" using b by simp
  then have "real_of_int W * pow2 (k - 52) < pow2 53 * pow2 (k - 52)"
    unfolding e W .
  then have "real_of_int W < pow2 53" by simp
  then have "real_of_int W < of_int (2 ^ 53)" by (simp add: pow2_def)
  then have "W < 2 ^ 53" using of_int_less_iff by blast
  then have "W \<le> 2 ^ 53 - 1" by simp
  then have "real_of_int W \<le> of_int (2 ^ 53 - 1)" using of_int_le_iff by blast
  then have "real_of_int W * pow2 (k - 52) \<le> of_int (2 ^ 53 - 1) * pow2 (k - 52)"
    by (intro mult_right_mono) simp_all
  then show "real_of_int w \<le> (2 ^ 53 - 1) * pow2 (k - 52)" using W by simp
qed

lemma double_above_int:
  assumes "fl s = s" "of_int w < s" "1 \<le> w" "w \<le> 2 ^ 52"
  shows "of_int w + pow2 (ilog2 (of_int w) - 52) \<le> s"
proof -
  define k where "k = ilog2 (real_of_int w)"
  define f where "f = fexp s"
  have wpos: "0 < real_of_int w" using assms(3) by simp
  have spos: "0 < s" using assms(2) wpos by linarith
  have k52: "k \<le> 52" unfolding k_def using assms(3,4) by (rule int_ulp(1))
  have k0: "0 \<le> k"
  proof -
    have "pow2 0 \<le> real_of_int w" using assms(3) by simp
    then have "pow2 0 < pow2 (k + 1)" using ilog2_bounds [OF wpos] by (simp add: k_def)
    then show ?thesis using pow2_mono [of "k + 1" 0] by fastforce
  qed
  have ks: "k \<le> ilog2 s" unfolding k_def using wpos assms(2) by (intro ilog2_mono) simp_all
  have f: "f = ilog2 s - 52" using ks k0 by (simp add: f_def fexp_pos [OF spos])
  have kf: "k - 52 \<le> f" using ks by (simp add: f)
  define M where "M = round_even (s / pow2 f)"
  have s: "s = of_int M * pow2 f"
    using assms(1) spos by (simp add: fl_def f_def M_def)
  show ?thesis
  proof (cases "f \<le> 0")
    case True
    define W where "W = w * 2 ^ nat (- f)"
    have "pow2 (- f) = of_int (2 ^ nat (- f))" using True by (intro pow2_nonneg_int) simp
    then have "real_of_int W * pow2 f = of_int w * (pow2 (- f) * pow2 f)" by (simp add: W_def)
    also have "pow2 (- f) * pow2 f = 1" using pow2_add [of "- f" f] by simp
    finally have W: "real_of_int w = of_int W * pow2 f" by simp
    have "real_of_int W * pow2 f < of_int M * pow2 f" using assms(2) W s by simp
    then have "real_of_int W < of_int M" by simp
    then have "W + 1 \<le> M" using of_int_less_iff [of W M, where ?'a = real] by simp
    then have "real_of_int (W + 1) \<le> of_int M" using of_int_le_iff by blast
    then have "real_of_int (W + 1) * pow2 f \<le> of_int M * pow2 f"
      by (intro mult_right_mono) simp_all
    then have "of_int w + pow2 f \<le> s" using W s by (simp add: algebra_simps)
    moreover have "pow2 (k - 52) \<le> pow2 f" using kf by (rule pow2_mono)
    ultimately show ?thesis by (simp add: k_def)
  next
    case False
    then have "53 \<le> ilog2 s" by (simp add: f)
    then have "pow2 53 \<le> s" using ilog2_bounds [OF spos] pow2_mono [of 53 "ilog2 s"] by linarith
    moreover have "real_of_int w \<le> pow2 52"
      using assms(4) of_int_le_iff [of w "2 ^ 52", where ?'a = real] by (simp add: pow2_def)
    moreover have "pow2 (k - 52) \<le> pow2 0" using k52 by (intro pow2_mono) simp
    moreover have "pow2 52 + pow2 0 \<le> pow2 53" by (simp add: pow2_def)
    ultimately show ?thesis by (simp add: k_def)
  qed
qed

lemma quotient_below_one:
  assumes "fl s = s" "of_int w < s" "1 \<le> w" "w \<le> 2 ^ 52"
  shows "fl (of_int w / s) < 1"
proof -
  define u where "u = pow2 (ilog2 (real_of_int w) - 52)"
  have wpos: "0 < real_of_int w" using assms(3) by simp
  have spos: "0 < s" using assms(2) wpos by linarith
  have upos: "0 < u" by (simp add: u_def)
  have s: "of_int w + u \<le> s" unfolding u_def using assms by (rule double_above_int)
  have w: "real_of_int w \<le> (2 ^ 53 - 1) * u"
    unfolding u_def using assms(3,4) by (rule int_ulp(3))
  have "real_of_int w * 2 ^ 53 \<le> (2 ^ 53 - 1) * (of_int w + u)"
    using w by (simp add: algebra_simps)
  also have "\<dots> \<le> (2 ^ 53 - 1) * s" using s by (intro mult_left_mono) simp_all
  finally have "real_of_int w / s \<le> (2 ^ 53 - 1) / 2 ^ 53"
    using spos by (simp add: field_simps)
  moreover have "fl ((2 ^ 53 - 1) / 2 ^ 53) = (2 ^ 53 - 1) / 2 ^ 53"
    using fl_exact [of "2 ^ 53 - 1" "- 53"] by (simp add: pow2_def)
  ultimately have "fl (real_of_int w / s) \<le> (2 ^ 53 - 1) / 2 ^ 53" by (rule fl_le)
  then show ?thesis by simp
qed

lemma rnd_cases: "rnd x = Fin (fl x) \<or> rnd x = PInf \<or> rnd x = NInf"
  by (simp add: rnd_def)

lemma div_int_float:
  "\<bar>w\<bar> \<le> 2 ^ 53 \<Longrightarrow>
   num_truediv (PInt w) (PFloat (Fin s)) =
     (if s = 0 then Inl ZeroDivisionError else Inr (PFloat (rnd (of_int w / s))))"
  by (simp add: rnd_of_int)

lemma mul_int_float:
  "\<bar>n\<bar> \<le> 2 ^ 53 \<Longrightarrow> num_mul (PInt n) (PFloat (Fin x)) = Inr (PFloat (rnd (of_int n * x)))"
  by (simp add: rnd_of_int)

lemma int_of_rnd: "bnd (Inr (PFloat (rnd x))) num_int = Inr n \<Longrightarrow> n = trunc (fl x)"
  using rnd_cases [of x] by auto

lemma bnd_Inr: "bnd m f = Inr y \<longleftrightarrow> (\<exists>v. m = Inr v \<and> f v = Inr y)"
  by (cases m) simp_all

lemma crop_window_size:
  assumes "\<bar>w\<bar> \<le> 2 ^ 53" "\<bar>h\<bar> \<le> 2 ^ 53" "scale st = PFloat (Fin s)"
    and "crop_window w h st = Inr c"
  shows "s \<noteq> 0" "crop_w c = trunc (fl (of_int w / s))" "crop_h c = trunc (fl (of_int h / s))"
proof -
  from assms(4) obtain qw qh where
    qw: "num_truediv (PInt w) (scale st) = Inr qw" "num_int qw = Inr (crop_w c)" and
    qh: "num_truediv (PInt h) (scale st) = Inr qh" "num_int qh = Inr (crop_h c)"
    by (auto simp: crop_window_def bnd_Inr Let_def)
  show s: "s \<noteq> 0"
    using qw(1) by (auto simp: assms(3) div_int_float [OF assms(1)] simp del: num_truediv.simps)
  have "qw = PFloat (rnd (of_int w / s))" "qh = PFloat (rnd (of_int h / s))"
    using qw(1) qh(1) s
    by (simp_all add: assms(3) div_int_float [OF assms(1)] div_int_float [OF assms(2)]
        del: num_truediv.simps)
  then show "crop_w c = trunc (fl (of_int w / s))" "crop_h c = trunc (fl (of_int h / s))"
    using qw(2) qh(2) int_of_rnd [of "of_int w / s"] int_of_rnd [of "of_int h / s"]
    by simp_all
qed

lemma crop_size_iff:
  assumes "1 \<le> w" "w \<le> 2 ^ 52" "fl s = s" "s \<noteq> 0"
  shows "1 \<le> trunc (fl (of_int w / s)) \<longleftrightarrow> 0 < s \<and> s \<le> of_int w"
proof (cases "0 < s")
  case False
  then have "of_int w / s \<le> 0" using assms(1) by (simp add: divide_nonneg_nonpos)
  then have "fl (of_int w / s) \<le> 0" using fl_le [of "of_int w / s" 0] by simp
  then have "trunc (fl (of_int w / s)) \<le> 0" by (rule trunc_nonpos)
  then show ?thesis using False by simp
next
  case True
  show ?thesis
  proof (cases "s \<le> of_int w")
    case le: True
    then have "1 \<le> of_int w / s" using True by simp
    then have "1 \<le> fl (of_int w / s)" using fl_ge [of 1 "of_int w / s"] fl_of_int [of 1] by simp
    then have "1 \<le> trunc (fl (of_int w / s))" using trunc_ge [of 1] by simp
    then show ?thesis using True le by simp
  next
    case gt: False
    then have "fl (of_int w / s) < 1"
      using quotient_below_one [OF assms(3) _ assms(1,2)] by simp
    moreover have "0 \<le> fl (of_int w / s)" using True assms(1) by (intro fl_nonneg) simp
    ultimately have "trunc (fl (of_int w / s)) = 0" by (intro trunc_lt_1)
    then show ?thesis using gt by simp
  qed
qed

text \<open>
  Claim C3, as amended. The frame generator enforces no floor on the crop dimensions
  and neither rejects nor clamps a scale: \<^verbatim>\<open>crop_w = int(w / scale)\<close> and
  \<^verbatim>\<open>crop_h = int(h / scale)\<close>. For an image of at most \<open>2\<^sup>5\<^sup>2\<close> pixels a side and a finite
  float scale, whenever the crop window is computed, \<open>crop_w \<ge> 1\<close> holds exactly when
  \<open>0 < scale \<le> w\<close> and \<open>crop_h \<ge> 1\<close> exactly when \<open>0 < scale \<le> h\<close>.
\<close>

theorem crop_size_no_floor:
  assumes "1 \<le> w" "w \<le> 2 ^ 52" "1 \<le> h" "h \<le> 2 ^ 52"
    and "scale st = PFloat (Fin s)" "fl s = s"
    and "crop_window w h st = Inr c"
  shows "crop_w c = trunc (fl (of_int w / s)) \<and> crop_h c = trunc (fl (of_int h / s)) \<and>
     (1 \<le> crop_w c \<longleftrightarrow> 0 < s \<and> s \<le> of_int w) \<and>
     (1 \<le> crop_h c \<longleftrightarrow> 0 < s \<and> s \<le> of_int h)"
proof -
  have w: "\<bar>w\<bar> \<le> 2 ^ 53" and h: "\<bar>h\<bar> \<le> 2 ^ 53" using assms(1-4) by simp_all
  note sz = crop_window_size [OF w h assms(5,7)]
  show ?thesis
    using crop_size_iff [OF assms(1,2,6) sz(1)] crop_size_iff [OF assms(3,4,6) sz(1)]
    by (simp add: sz)
qed

text \<open>A 10 by 10 image at scale 2.\<close>

theorem crop_size_no_floor_witness:
  "crop_window 10 10 \<lparr>scale = PFloat (Fin 2), cx = PFloat (Fin (1/2)), cy = PFloat (Fin (1/2))\<rparr> =
     Inr \<lparr>crop_w = 5, crop_h = 5, x1 = 2, y1 = 2, x2 = 7, y2 = 7\<rparr> \<and>
   trunc (fl (10 / 2)) = 5 \<and> fl 2 = 2"
proof -
  define st where "st = \<lparr>scale = PFloat (Fin 2), cx = PFloat (Fin (1/2)), cy = PFloat (Fin (1/2))\<rparr>"
  define c where "c = \<lparr>crop_w = 5, crop_h = 5, x1 = 2, y1 = 2, x2 = 7, y2 = (7::int)\<rparr>"
  have cw: "crop_window 10 10 st = Inr c"
    by (simp add: st_def c_def crop_window_def fl_eval num_eval)
  have s: "scale st = PFloat (Fin 2)" by (simp add: st_def)
  have f: "fl 2 = 2" using fl_of_int [of 2] by simp
  have "crop_w c = trunc (fl (of_int 10 / 2))"
    using crop_size_no_floor [of 10 10 st 2 c, OF _ _ _ _ s f cw] by simp
  then have "trunc (fl (10 / 2)) = 5" by (simp add: c_def)
  then show ?thesis using cw f by (simp add: st_def c_def)
qed

text \<open>
  Claim C3 as stated fails: a constant scale of 1000 on a 10 by 10 image is accepted,
  and frame 0 gets the crop window of width and height 0 at (5, 5).
\<close>

theorem degenerate_crop_window:
  "bnd (motion_state 0 12 (mk_motion 1000 1000 (1/2) (1/2) (1/2) (1/2))) (crop_window 10 10) =
     Inr \<lparr>crop_w = 0, crop_h = 0, x1 = 5, y1 = 5, x2 = 5, y2 = 5\<rparr>"
proof -
  have d: "dbl 1000 = PFloat (Fin 1000)" using rnd_of_int [of 1000] by (simp add: dbl_def)
  have m: "moderate (PFloat (Fin 1000))" "moderate (PFloat (Fin (1/2)))"
    using fl_of_int [of 1000] by (simp_all add: fl_eval)
  have s: "motion_state 0 12 (mk_motion 1000 1000 (1/2) (1/2) (1/2) (1/2)) =
      Inr \<lparr>scale = PFloat (Fin 1000), cx = PFloat (Fin (1/2)), cy = PFloat (Fin (1/2))\<rparr>"
    by (simp add: motion_state_def frame_progress_first interpolate_first [OF m(1) m(1)]
        interpolate_first [OF m(2) m(2)] mk_motion_def d dbl_values)
  show ?thesis
    unfolding s by (simp add: crop_window_def fl_eval num_eval)
qed

section \<open>The easing function\<close>

lemma fl_error_lt:
  assumes "\<bar>x\<bar> < pow2 j" "- 1021 \<le> j"
  shows "\<bar>fl x - x\<bar> \<le> pow2 (j - 54)"
proof (cases "x = 0")
  case True
  then show ?thesis by simp
next
  case False
  then have pos: "0 < \<bar>x\<bar>" by simp
  have "pow2 (ilog2 \<bar>x\<bar>) < pow2 j" using ilog2_bounds [OF pos] assms(1) by linarith
  then have "ilog2 \<bar>x\<bar> < j" using pow2_mono [of j "ilog2 \<bar>x\<bar>"] by fastforce
  then have "fexp x \<le> j - 53" using assms(2) by (simp add: fexp_def)
  then have "pow2 (fexp x) \<le> pow2 (j - 53)" by (rule pow2_mono)
  moreover have "pow2 (j - 53) = 2 * pow2 (j - 54)"
    using pow2_add [of 1 "j - 54"] by (simp add: pow2_def [of 1])
  ultimately show ?thesis using fl_error [of x] by simp
qed

lemma fl_error_le:
  assumes "\<bar>x\<bar> \<le> pow2 j" "- 1022 \<le> j"
  shows "\<bar>fl x - x\<bar> \<le> pow2 (j - 53)"
proof -
  have "\<bar>x\<bar> < pow2 (j + 1)" using assms(1) pow2_strict_mono [of j "j + 1"] by simp
  then show ?thesis using fl_error_lt [of x "j + 1"] assms(2) by simp
qed

lemma abs_le_big: "\<bar>x\<bar> \<le> 4 \<Longrightarrow> \<bar>x::real\<bar> \<le> 2 ^ 1023"
proof -
  have "(4::real) \<le> 2 ^ 1023" by simp
  then show "\<bar>x\<bar> \<le> 4 \<Longrightarrow> \<bar>x\<bar> \<le> 2 ^ 1023" by linarith
qed

lemma approx_mono:
  fixes a b p q e :: real
  shows "\<bar>a - p\<bar> \<le> e \<Longrightarrow> \<bar>b - q\<bar> \<le> e \<Longrightarrow> p \<le> q \<Longrightarrow> a \<le> b + 2 * e"
  by linarith

lemma approx_gap:
  fixes a b p q e :: real
  shows "\<bar>a - p\<bar> \<le> e \<Longrightarrow> \<bar>b - q\<bar> \<le> e \<Longrightarrow> 2 * e \<le> q - p \<Longrightarrow> a \<le> b"
  by linarith

lemma fl_consts: "fl 1 = 1" "fl 2 = 2" "fl 3 = 3" "fl 4 = 4" "fl (1/4) = 1/4" "fl (3/4) = 3/4"
  "fl (1 + 1 / 2 ^ 53) = 1"
  by (simp_all add: fl_eval)

lemma ease_parts:
  assumes "0 \<le> t" "t \<le> 1"
  shows "0 \<le> fl (t * t)" "fl (t * t) \<le> 1" "0 \<le> fl (2 * t)" "fl (2 * t) \<le> 2"
    "1 \<le> fl (3 - fl (2 * t))" "fl (3 - fl (2 * t)) \<le> 3"
proof -
  have tt: "0 \<le> t * t" "t * t \<le> 1" using assms by (simp_all add: mult_le_one)
  show "0 \<le> fl (t * t)" using tt(1) by (rule fl_nonneg)
  show "fl (t * t) \<le> 1" using tt(2) fl_consts(1) by (rule fl_le)
  show c0: "0 \<le> fl (2 * t)" using assms(1) by (intro fl_nonneg) simp
  show c2: "fl (2 * t) \<le> 2" using assms(2) fl_consts(2) by (intro fl_le) simp_all
  show "1 \<le> fl (3 - fl (2 * t))" using c2 fl_consts(1) by (intro fl_ge) simp_all
  show "fl (3 - fl (2 * t)) \<le> 3" using c0 fl_consts(3) by (intro fl_le) simp_all
qed

lemma ease_in_out_float:
  assumes "0 \<le> t" "t \<le> 1"
  shows "ease_in_out (PFloat (Fin t)) = Inr (PFloat (Fin (ease_float t)))"
proof -
  note p = ease_parts [OF assms]
  have a: "\<bar>t * t\<bar> \<le> 2 ^ 1023"
  proof (rule abs_le_big)
    have "\<bar>t * t\<bar> \<le> 1" using assms by (simp add: abs_mult mult_le_one)
    then show "\<bar>t * t\<bar> \<le> 4" by linarith
  qed
  have c: "\<bar>2 * t\<bar> \<le> 2 ^ 1023" using assms by (intro abs_le_big) simp
  have b: "\<bar>3 - fl (2 * t)\<bar> \<le> 2 ^ 1023" using p(3,4) by (intro abs_le_big) simp
  have "fl (t * t) * fl (3 - fl (2 * t)) \<le> 1 * 3"
    using mult_mono [of "fl (t * t)" 1 "fl (3 - fl (2 * t))" 3] p by simp
  moreover have "0 \<le> fl (t * t) * fl (3 - fl (2 * t))" using p by simp
  ultimately have r: "\<bar>fl (t * t) * fl (3 - fl (2 * t))\<bar> \<le> 2 ^ 1023"
    by (intro abs_le_big) simp
  show ?thesis
    using a b c r rnd_of_int [of 2] rnd_of_int [of 3]
    by (simp add: ease_in_out_def ease_float_def fsub_def rnd_small)
qed

lemma ease_float_nonneg:
  assumes "0 \<le> t" "t \<le> 1"
  shows "0 \<le> ease_float t"
proof -
  have "0 \<le> fl (t * t) * fl (3 - fl (2 * t))" using ease_parts [OF assms] by simp
  then show ?thesis unfolding ease_float_def by (rule fl_nonneg)
qed

lemma ease_float_accurate:
  assumes "0 \<le> t" "t \<le> 1"
  shows "\<bar>ease_float t - t * t * (3 - 2 * t)\<bar> \<le> 1 / 2 ^ 49"
proof -
  define a where "a = fl (t * t)"
  define c where "c = fl (2 * t)"
  define b where "b = fl (3 - c)"
  note p = ease_parts [OF assms, folded a_def c_def, folded b_def]
  have tt: "0 \<le> t * t" "t * t \<le> 1" using assms by (simp_all add: mult_le_one)
  have ea: "\<bar>a - t * t\<bar> \<le> 1 / 2 ^ 53"
    unfolding a_def using fl_error_le [of "t * t" 0] tt by (simp add: pow2_def)
  have ec: "\<bar>c - 2 * t\<bar> \<le> 1 / 2 ^ 52"
    unfolding c_def using fl_error_le [of "2 * t" 1] assms by (simp add: pow2_def)
  have eb: "\<bar>b - (3 - c)\<bar> \<le> 1 / 2 ^ 51"
    unfolding b_def using fl_error_le [of "3 - c" 2] p(3,4) by (simp add: pow2_def)
  have ab: "0 \<le> a * b" "a * b \<le> 1 * 3" using p mult_mono [of a 1 b 3] by simp_all
  have er: "\<bar>fl (a * b) - a * b\<bar> \<le> 1 / 2 ^ 51"
    using fl_error_le [of "a * b" 2] ab by (simp add: pow2_def)
  have eb': "\<bar>b - (3 - 2 * t)\<bar> \<le> 1 / 2 ^ 51 + 1 / 2 ^ 52" using eb ec by linarith
  have "a * b - t * t * (3 - 2 * t) = (a - t * t) * b + t * t * (b - (3 - 2 * t))"
    by (simp add: algebra_simps)
  then have "\<bar>a * b - t * t * (3 - 2 * t)\<bar> \<le> \<bar>a - t * t\<bar> * \<bar>b\<bar> + \<bar>t * t\<bar> * \<bar>b - (3 - 2 * t)\<bar>"
    by (metis abs_mult abs_triangle_ineq)
  also have "\<dots> \<le> (1 / 2 ^ 53) * 3 + 1 * (1 / 2 ^ 51 + 1 / 2 ^ 52)"
    using ea eb' p tt by (intro add_mono mult_mono) simp_all
  finally have "\<bar>a * b - t * t * (3 - 2 * t)\<bar> \<le> (1 / 2 ^ 53) * 3 + 1 * (1 / 2 ^ 51 + 1 / 2 ^ 52)" .
  then have "\<bar>fl (a * b) - t * t * (3 - 2 * t)\<bar> \<le> 1 / 2 ^ 51 + ((1 / 2 ^ 53) * 3 + 1 * (1 / 2 ^ 51 + 1 / 2 ^ 52))"
    using er by linarith
  also have "\<dots> \<le> 1 / 2 ^ 49" by simp
  finally show ?thesis by (simp add: ease_float_def a_def b_def c_def)
qed

lemma smoothstep_gap:
  fixes s t :: real
  assumes "0 \<le> s" "s \<le> t" "t \<le> 1"
  shows "(t - s) * (t - s) \<le> t * t * (3 - 2 * t) - s * s * (3 - 2 * s)"
proof -
  have "t * t * (3 - 2 * t) - s * s * (3 - 2 * s) - (t - s) * (t - s) =
      2 * (t - s) * (t * (1 - t) + s * (2 - s - t))"
    by (simp add: algebra_simps)
  moreover have "0 \<le> 2 * (t - s) * (t * (1 - t) + s * (2 - s - t))"
    using assms by (intro mult_nonneg_nonneg add_nonneg_nonneg) simp_all
  ultimately show ?thesis by linarith
qed

lemma ease_float_mono_approx:
  assumes "0 \<le> s" "s \<le> t" "t \<le> 1"
  shows "ease_float s \<le> ease_float t + 1 / 2 ^ 48"
proof -
  have s1: "s \<le> 1" using assms by simp
  have t0: "0 \<le> t" using assms by simp
  have "0 \<le> (t - s) * (t - s)" by simp
  then have "s * s * (3 - 2 * s) \<le> t * t * (3 - 2 * t)"
    using smoothstep_gap [OF assms] by linarith
  then have "ease_float s \<le> ease_float t + 2 * (1 / 2 ^ 49)"
    by (rule approx_mono [OF ease_float_accurate [OF assms(1) s1]
          ease_float_accurate [OF t0 assms(3)]])
  then show ?thesis by simp
qed

lemma ease_float_mono_apart:
  assumes "0 \<le> s" "s + 1 / 2 ^ 23 \<le> t" "t \<le> 1"
  shows "ease_float s \<le> ease_float t"
proof -
  have "(0::real) \<le> 1 / 2 ^ 23" by simp
  then have st: "s \<le> t" using assms(2) by linarith
  have s1: "s \<le> 1" using st assms by simp
  have t0: "0 \<le> t" using st assms by simp
  have "(1 / 2 ^ 23) * (1 / 2 ^ 23) \<le> (t - s) * (t - s)"
    using assms(2) by (intro mult_mono) simp_all
  then have "1 / 2 ^ 46 \<le> t * t * (3 - 2 * t) - s * s * (3 - 2 * s)"
    using smoothstep_gap [OF assms(1) st assms(3)] by simp
  then have "2 * (1 / 2 ^ 49) \<le> t * t * (3 - 2 * t) - s * s * (3 - 2 * s)" by simp
  then show ?thesis
    by (rule approx_gap [OF ease_float_accurate [OF assms(1) s1]
          ease_float_accurate [OF t0 assms(3)]])
qed

lemma double_grid:
  assumes "fl t = t" "1 / 2 \<le> t" "t \<le> 1"
  shows "\<exists>M. t = of_int M * pow2 (- 53) \<and> 2 ^ 52 \<le> M \<and> M \<le> 2 ^ 53"
proof -
  have pos: "0 < t" using assms(2) by simp
  define k where "k = ilog2 t"
  note b = ilog2_bounds [OF pos, folded k_def]
  have "pow2 (- 1) < pow2 (k + 1)" using b assms(2) by (simp add: pow2_def [of "- 1"])
  then have k1: "- 1 \<le> k" using pow2_mono [of "k + 1" "- 1"] by fastforce
  have "pow2 k < pow2 1" using b assms(3) by (simp add: pow2_def [of 1])
  then have k0: "k \<le> 0" using pow2_mono [of 1 k] by fastforce
  have f: "fexp t = k - 52" using k1 by (simp add: fexp_pos [OF pos] k_def)
  define R where "R = round_even (t / pow2 (k - 52))"
  have t: "t = of_int R * pow2 (k - 52)" using assms(1) pos by (simp add: fl_def f R_def)
  have "\<exists>M. t = of_int M * pow2 (- 53)"
  proof (cases "k = 0")
    case True
    have "pow2 (- 52) = 2 * pow2 (- 53)" by (simp add: pow2_def)
    then have "t = of_int (2 * R) * pow2 (- 53)" using t True by simp
    then show ?thesis ..
  next
    case False
    then have "k = - 1" using k0 k1 by simp
    then show ?thesis using t by auto
  qed
  then obtain M where M: "t = of_int M * pow2 (- 53)" ..
  have "real_of_int M = t * 2 ^ 53" by (simp add: M pow2_def)
  then have "real_of_int (2 ^ 52) \<le> of_int M" "real_of_int M \<le> of_int (2 ^ 53)"
    using assms(2,3) by simp_all
  then have "2 ^ 52 \<le> M" "M \<le> 2 ^ 53" using of_int_le_iff by blast+
  then show ?thesis using M by blast
qed

lemma ease_exact_parts:
  assumes "fl t = t" "1 / 2 \<le> t" "t \<le> 1"
  shows "fl (2 * t) = 2 * t" "fl (3 - 2 * t) = 3 - 2 * t"
proof -
  obtain M where M: "t = of_int M * pow2 (- 53)" "2 ^ 52 \<le> M" "M \<le> 2 ^ 53"
    using double_grid [OF assms] by blast
  have p: "pow2 (- 52) = 2 * pow2 (- 53)" by (simp add: pow2_def)
  have "2 * t = of_int M * pow2 (- 52)" by (simp add: M(1) p)
  moreover have "fl (of_int M * pow2 (- 52)) = of_int M * pow2 (- 52)"
    using M(2,3) by (intro fl_exact) simp_all
  ultimately show "fl (2 * t) = 2 * t" by simp
  have "3 - 2 * t = of_int (3 * 2 ^ 52 - M) * pow2 (- 52)" by (simp add: M(1) pow2_def)
  moreover have "fl (of_int (3 * 2 ^ 52 - M) * pow2 (- 52)) = of_int (3 * 2 ^ 52 - M) * pow2 (- 52)"
    using M(2,3) by (intro fl_exact) simp_all
  ultimately show "fl (3 - 2 * t) = 3 - 2 * t" by simp
qed

lemma ease_float_values: "ease_float 0 = 0" "ease_float 1 = 1" "ease_float (1/2) = 1/2"
  by (simp_all add: ease_float_def fl_eval)

lemma ease_float_le_1:
  assumes "fl t = t" "0 \<le> t" "t \<le> 1"
  shows "ease_float t \<le> 1"
proof -
  consider "t = 1" | "1 / 2 \<le> t" "t < 1" | "t < 1 / 2" using assms(3) by linarith
  then show ?thesis
  proof cases
    case 1
    then show ?thesis by (simp add: ease_float_values)
  next
    case 2
    define a where "a = fl (t * t)"
    define e :: real where "e = 1 / 2 ^ 54"
    have t1: "t \<le> 1" using 2 by simp
    note x = ease_exact_parts [OF assms(1) 2(1) t1]
    have "t * t < 1 * 1" using 2 assms(2) by (intro mult_strict_mono) simp_all
    then have "\<bar>t * t\<bar> < pow2 0" by simp
    then have "\<bar>a - t * t\<bar> \<le> pow2 (0 - 54)" unfolding a_def by (rule fl_error_lt) simp
    moreover have "pow2 (0 - 54) = e" by (simp add: pow2_def e_def)
    ultimately have a: "a \<le> t * t + e" by linarith
    have b: "0 \<le> 3 - 2 * t" "3 - 2 * t \<le> 2" using 2 by simp_all
    have "a * (3 - 2 * t) \<le> (t * t + e) * (3 - 2 * t)" using a b(1) by (rule mult_right_mono)
    also have "\<dots> = t * t * (3 - 2 * t) + e * (3 - 2 * t)" by (simp add: algebra_simps)
    also have "\<dots> \<le> 1 + e * 2"
    proof (rule add_mono)
      have "1 - t * t * (3 - 2 * t) = (1 - t) * (1 - t) * (1 + 2 * t)" by (simp add: algebra_simps)
      moreover have "0 \<le> (1 - t) * (1 - t) * (1 + 2 * t)" using assms(2) by simp
      ultimately show "t * t * (3 - 2 * t) \<le> 1" by linarith
      show "e * (3 - 2 * t) \<le> e * 2" using b(2) by (intro mult_left_mono) (simp_all add: e_def)
    qed
    finally have "a * (3 - 2 * t) \<le> 1 + 1 / 2 ^ 53" by (simp add: e_def)
    then have "fl (a * (3 - 2 * t)) \<le> fl (1 + 1 / 2 ^ 53)" by (rule fl_mono)
    then have "fl (a * (3 - 2 * t)) \<le> 1" unfolding fl_consts(7) .
    then show ?thesis by (simp add: ease_float_def x a_def)
  next
    case 3
    note p = ease_parts [OF assms(2,3)]
    have "t * t \<le> (1 / 2) * (1 / 2)" using 3 assms(2) by (intro mult_mono) simp_all
    then have "t * t \<le> 1 / 4" by simp
    then have "fl (t * t) \<le> 1 / 4" using fl_consts(5) by (rule fl_le)
    then have "fl (t * t) * fl (3 - fl (2 * t)) \<le> (1 / 4) * 3"
      using p by (intro mult_mono) simp_all
    then have "fl (t * t) * fl (3 - fl (2 * t)) \<le> 1" by simp
    then show ?thesis unfolding ease_float_def using fl_consts(1) by (rule fl_le)
  qed
qed

text \<open>
  Claim C6, as amended. The easing function computes \<open>t\<^sup>2(3 - 2t)\<close> in float
  arithmetic: \<open>ease(0) = 0\<close>, \<open>ease(1) = 1\<close> and \<open>ease(0.5) = 0.5\<close> exactly; for every
  float \<open>t\<close> in \<open>[0, 1]\<close> the result is a float in \<open>[0, 1]\<close> within \<open>2\<^sup>-\<^sup>4\<^sup>9\<close> of the exact
  value of the polynomial; and it is non-decreasing up to rounding: for
  \<open>0 \<le> s \<le> t \<le> 1\<close>, \<open>ease(s) \<le> ease(t) + 2\<^sup>-\<^sup>4\<^sup>8\<close>, and \<open>ease(s) \<le> ease(t)\<close> as soon as
  \<open>t - s \<ge> 2\<^sup>-\<^sup>2\<^sup>3\<close> (which covers any 50 evenly spaced samples and the frame grid of
  every video of up to \<open>2\<^sup>2\<^sup>3\<close> frames).
\<close>

theorem ease_in_out_properties:
  "ease_in_out (PFloat (Fin 0)) = Inr (PFloat (Fin 0)) \<and>
   ease_in_out (PFloat (Fin 1)) = Inr (PFloat (Fin 1)) \<and>
   ease_in_out (PFloat (Fin (1/2))) = Inr (PFloat (Fin (1/2))) \<and>
   (\<forall>t. 0 \<le> t \<and> t \<le> 1 \<and> fl t = t \<longrightarrow>
      ease_in_out (PFloat (Fin t)) = Inr (PFloat (Fin (ease_float t))) \<and>
      0 \<le> ease_float t \<and> ease_float t \<le> 1 \<and>
      \<bar>ease_float t - t * t * (3 - 2 * t)\<bar> \<le> 1 / 2 ^ 49) \<and>
   (\<forall>s t. 0 \<le> s \<and> s \<le> t \<and> t \<le> 1 \<longrightarrow>
      ease_float s \<le> ease_float t + 1 / 2 ^ 48 \<and>
      (s + 1 / 2 ^ 23 \<le> t \<longrightarrow> ease_float s \<le> ease_float t))"
proof -
  have v: "ease_in_out (PFloat (Fin 0)) = Inr (PFloat (Fin 0))"
    "ease_in_out (PFloat (Fin 1)) = Inr (PFloat (Fin 1))"
    "ease_in_out (PFloat (Fin (1/2))) = Inr (PFloat (Fin (1/2)))"
    using ease_in_out_float [of 0] ease_in_out_float [of 1] ease_in_out_float [of "1/2"]
    by (simp_all add: ease_float_values)
  have r: "ease_in_out (PFloat (Fin t)) = Inr (PFloat (Fin (ease_float t))) \<and>
      0 \<le> ease_float t \<and> ease_float t \<le> 1 \<and>
      \<bar>ease_float t - t * t * (3 - 2 * t)\<bar> \<le> 1 / 2 ^ 49"
    if "0 \<le> t \<and> t \<le> 1 \<and> fl t = t" for t
    using that ease_in_out_float [of t] ease_float_nonneg [of t] ease_float_le_1 [of t]
      ease_float_accurate [of t] by blast
  have m: "ease_float s \<le> ease_float t + 1 / 2 ^ 48 \<and>
      (s + 1 / 2 ^ 23 \<le> t \<longrightarrow> ease_float s \<le> ease_float t)"
    if "0 \<le> s \<and> s \<le> t \<and> t \<le> 1" for s t
    using that ease_float_mono_approx [of s t] ease_float_mono_apart [of s t] by blast
  from v r m show ?thesis by blast
qed

text \<open>The points 0.25 and 0.75, where the computation is exact.\<close>

theorem ease_in_out_properties_witness:
  "fl (1/4) = 1/4 \<and>
   ease_in_out (PFloat (Fin (1/4))) = Inr (PFloat (Fin (5/32))) \<and>
   ease_in_out (PFloat (Fin (3/4))) = Inr (PFloat (Fin (27/32))) \<and>
   (0::real) \<le> 5/32 \<and> (5/32::real) \<le> 1 \<and> \<bar>5/32 - (1/4) * (1/4) * (3 - 2 * (1/4))\<bar> \<le> (1 / 2 ^ 49 :: real) \<and>
   (1/4 + 1 / 2 ^ 23 :: real) \<le> 3/4 \<and> (5/32::real) \<le> 27/32"
proof -
  have e: "ease_float (1/4) = 5/32" "ease_float (3/4) = 27/32"
    by (simp_all add: ease_float_def fl_eval)
  have h1: "(0::real) \<le> 1/4 \<and> (1/4::real) \<le> 1 \<and> fl (1/4) = 1/4" by (simp add: fl_consts)
  have h2: "(0::real) \<le> 3/4 \<and> (3/4::real) \<le> 1 \<and> fl (3/4) = 3/4" by (simp add: fl_consts)
  have h3: "(0::real) \<le> 1/4 \<and> (1/4::real) \<le> 3/4 \<and> (3/4::real) \<le> 1" by simp
  have h4: "(1/4 + 1 / 2 ^ 23 :: real) \<le> 3/4" by simp
  from ease_in_out_properties h1
  have a: "ease_in_out (PFloat (Fin (1/4))) = Inr (PFloat (Fin (ease_float (1/4)))) \<and>
      0 \<le> ease_float (1/4) \<and> ease_float (1/4) \<le> 1 \<and>
      \<bar>ease_float (1/4) - (1/4) * (1/4) * (3 - 2 * (1/4))\<bar> \<le> 1 / 2 ^ 49"
    by blast
  from ease_in_out_properties h2
  have b: "ease_in_out (PFloat (Fin (3/4))) = Inr (PFloat (Fin (ease_float (3/4))))"
    by blast
  from ease_in_out_properties h3 h4
  have c: "ease_float (1/4) \<le> ease_float (3/4)"
    by blast
  from a b c h1 h4 show ?thesis unfolding e by blast
qed

text \<open>
  Claim C6 as stated fails: the adjacent floats \<^verbatim>\<open>s = 0.9091242536462829\<close> and
  \<^verbatim>\<open>t = 0.909124253646283\<close> have \<^verbatim>\<open>ease(s) = 0.9767257729331357\<close> and
  \<^verbatim>\<open>ease(t) = 0.9767257729331356\<close>, one unit in the last place less.
\<close>

theorem ease_in_out_not_monotone:
  "ease_in_out (PFloat (Fin (63973932030545 / 70368744177664))) =
     Inr (PFloat (Fin (8797563654049659 / 9007199254740992))) \<and>
   ease_in_out (PFloat (Fin (8188663299909761 / 9007199254740992))) =
     Inr (PFloat (Fin (4398781827024829 / 4503599627370496))) \<and>
   (63973932030545 / 70368744177664 :: real) < 8188663299909761 / 9007199254740992 \<and>
   (8188663299909761 / 9007199254740992 :: real) \<le> 1 \<and>
   (4398781827024829 / 4503599627370496 :: real) < 8797563654049659 / 9007199254740992"
  by (simp add: ease_in_out_def fl_eval num_eval)

section \<open>The crop window stays inside the image\<close>

lemma frame_progress_range:
  assumes "0 \<le> i" "i < N"
  shows "\<exists>t. frame_progress i N = Inr (PFloat (Fin t)) \<and> 0 \<le> t \<and> t \<le> 1 \<and> fl t = t"
proof -
  define m where "m = max (N - 1) 1"
  define q where "q = real_of_int i / real_of_int m"
  have m: "1 \<le> m" "i \<le> m" using assms by (simp_all add: m_def)
  have q: "0 \<le> q" "q \<le> 1" using assms(1) m by (simp_all add: q_def)
  have f: "0 \<le> fl q" "fl q \<le> 1"
    using q fl_nonneg [of q] fl_le [of q 1] fl_consts(1) by simp_all
  have "\<bar>q\<bar> \<le> 2 ^ 1023" using q by (intro abs_le_big) simp
  then have "num_truediv (PInt i) (PInt m) = Inr (PFloat (Fin (fl q)))"
    using m(1) by (simp add: q_def rnd_small)
  then have "frame_progress i N = Inr (PFloat (Fin (ease_float (fl q))))"
    using ease_in_out_float [OF f] by (simp add: frame_progress_def m_def)
  moreover have "0 \<le> ease_float (fl q)" "ease_float (fl q) \<le> 1"
    using f by (simp_all add: ease_float_nonneg ease_float_le_1)
  moreover have "fl (ease_float (fl q)) = ease_float (fl q)" by (simp add: ease_float_def)
  ultimately show ?thesis by blast
qed

lemma fl_scaled_between:
  assumes "0 \<le> t" "t \<le> 1"
  shows "0 \<le> d \<Longrightarrow> 0 \<le> fl (fl d * t) \<and> fl (fl d * t) \<le> fl d"
    and "d \<le> 0 \<Longrightarrow> fl d \<le> fl (fl d * t) \<and> fl (fl d * t) \<le> 0"
proof -
  assume d: "0 \<le> d"
  then have fd: "0 \<le> fl d" by (rule fl_nonneg)
  have "fl d * t \<le> fl d * 1" using assms(2) fd by (intro mult_left_mono)
  then have "fl (fl d * t) \<le> fl d" using fl_le [of "fl d * t" "fl d"] by simp
  moreover have "0 \<le> fl (fl d * t)" using fd assms(1) by (intro fl_nonneg) simp
  ultimately show "0 \<le> fl (fl d * t) \<and> fl (fl d * t) \<le> fl d" by simp
next
  assume d: "d \<le> 0"
  then have fd: "fl d \<le> 0" using fl_le [of d 0] by simp
  have "fl d * 1 \<le> fl d * t" using assms(2) fd by (intro mult_left_mono_neg)
  then have "fl d \<le> fl (fl d * t)" using fl_ge [of "fl d" "fl d * t"] by simp
  moreover have "fl d * t \<le> 0" using fd assms(1) by (simp add: mult_nonpos_nonneg)
  then have "fl (fl d * t) \<le> 0" using fl_le [of "fl d * t" 0] by simp
  ultimately show "fl d \<le> fl (fl d * t) \<and> fl (fl d * t) \<le> 0" by simp
qed

lemma lerp_between:
  assumes "0 \<le> t" "t \<le> 1" "fl a = a"
  shows "min a (fl (a + fl (b - a))) \<le> fl (a + fl (fl (b - a) * t))"
    and "fl (a + fl (fl (b - a) * t)) \<le> max a (fl (a + fl (b - a)))"
proof -
  define d where "d = b - a"
  define u where "u = fl (fl d * t)"
  have "(a \<le> a + u \<and> a + u \<le> a + fl d) \<or> (a + fl d \<le> a + u \<and> a + u \<le> a)"
    using fl_scaled_between [OF assms(1,2), of d] by (cases "0 \<le> d") (simp_all add: u_def)
  then have "(fl a \<le> fl (a + u) \<and> fl (a + u) \<le> fl (a + fl d)) \<or>
      (fl (a + fl d) \<le> fl (a + u) \<and> fl (a + u) \<le> fl a)"
    using fl_mono by blast
  then show "min a (fl (a + fl (b - a))) \<le> fl (a + fl (fl (b - a) * t))"
    and "fl (a + fl (fl (b - a) * t)) \<le> max a (fl (a + fl (b - a)))"
    by (auto simp: assms(3) d_def u_def)
qed

lemma interpolate_value:
  assumes "moderate a" "moderate b" "0 \<le> t" "t \<le> 1"
  shows "interpolate a b (PFloat (Fin t)) =
      Inr (PFloat (Fin (fl (num_real a + fl (fl (num_real b - num_real a) * t)))))"
    and "\<bar>fl (num_real a + fl (fl (num_real b - num_real a) * t))\<bar> \<le> 2 ^ 962"
proof -
  define x where "x = num_real a"
  define y where "y = num_real b"
  have a: "\<bar>x\<bar> \<le> 2 ^ 960" and b: "\<bar>y\<bar> \<le> 2 ^ 960"
    using moderate_real(2) [OF assms(1)] moderate_real(2) [OF assms(2)]
    by (simp_all add: x_def y_def)
  have "\<bar>y - x\<bar> \<le> 2 ^ 960 + 2 ^ 960" using a b by linarith
  then have d: "\<bar>y - x\<bar> \<le> 2 ^ 961" by simp
  have p: "fl (2 ^ 961) = 2 ^ 961" "fl (2 ^ 962) = 2 ^ 962" by (rule fl_pow2_nat, simp)+
  have fd: "\<bar>fl (y - x)\<bar> \<le> 2 ^ 961" using d p(1) by (rule fl_abs_le)
  have "\<bar>fl (y - x) * t\<bar> \<le> 2 ^ 961 * 1"
    unfolding abs_mult using fd assms(3,4) by (intro mult_mono) simp_all
  then have dt: "\<bar>fl (y - x) * t\<bar> \<le> 2 ^ 961" by simp
  have fdt: "\<bar>fl (fl (y - x) * t)\<bar> \<le> 2 ^ 961" using dt p(1) by (rule fl_abs_le)
  have "\<bar>x + fl (fl (y - x) * t)\<bar> \<le> 2 ^ 960 + 2 ^ 961" using a fdt by linarith
  then have s: "\<bar>x + fl (fl (y - x) * t)\<bar> \<le> 2 ^ 962" by simp
  have big: "\<bar>fl (y - x) * t\<bar> \<le> 2 ^ 1023" "\<bar>x + fl (fl (y - x) * t)\<bar> \<le> 2 ^ 1023"
    using dt s by simp_all
  have "interpolate a b (PFloat (Fin t)) =
      Inr (PFloat (fadd (Fin x) (fmul (Fin (fl (y - x))) (Fin t))))"
    unfolding x_def y_def by (rule interpolate_moderate [OF assms(1,2)])
  then show "interpolate a b (PFloat (Fin t)) =
      Inr (PFloat (Fin (fl (num_real a + fl (fl (num_real b - num_real a) * t)))))"
    using big by (simp add: rnd_small x_def y_def)
  show "\<bar>fl (num_real a + fl (fl (num_real b - num_real a) * t))\<bar> \<le> 2 ^ 962"
    using fl_abs_le [OF s p(2)] by (simp add: x_def y_def)
qed

lemma fl_one_minus_exact:
  assumes "fl a = a" "1 \<le> a" "a \<le> 2 ^ 52"
  shows "fl (1 - a) = 1 - a"
proof -
  have pos: "0 < a" using assms(2) by simp
  define k where "k = ilog2 a"
  note b = ilog2_bounds [OF pos, folded k_def]
  have "pow2 0 < pow2 (k + 1)" using b assms(2) by simp
  then have k0: "0 \<le> k" using pow2_mono [of "k + 1" 0] by fastforce
  have "pow2 k < pow2 53" using b assms(3) by (simp add: pow2_def [of 53])
  then have k52: "k \<le> 52" using pow2_mono [of 53 k] by fastforce
  define f where "f = k - 52"
  have f: "fexp a = f" "f \<le> 0" "- 1074 \<le> f" using k0 k52 by (simp_all add: fexp_pos [OF pos] k_def f_def)
  define R where "R = round_even (a / pow2 f)"
  have a: "a = of_int R * pow2 f" using assms(1) pos by (simp add: fl_def f(1) R_def)
  define U where "U = (2::int) ^ nat (- f)"
  have "pow2 (- f) = of_int U" unfolding U_def using f(2) by (intro pow2_nonneg_int) simp
  then have one: "1 = real_of_int U * pow2 f" using pow2_add [of "- f" f] by simp
  have "real_of_int U * pow2 f \<le> of_int R * pow2 f" using assms(2) a one by simp
  then have "real_of_int U \<le> of_int R" by simp
  then have UR: "U \<le> R" using of_int_le_iff by blast
  have "pow2 (k + 1) = pow2 53 * pow2 f" using pow2_add [of 53 f] by (simp add: f_def add.commute)
  then have "of_int R * pow2 f < pow2 53 * pow2 f" using b a by simp
  then have "real_of_int R < pow2 53" by simp
  then have "real_of_int R < of_int (2 ^ 53)" by (simp add: pow2_def)
  then have R53: "R < 2 ^ 53" using of_int_less_iff by blast
  have U0: "0 < U" by (simp add: U_def)
  have "fl (of_int (R - U) * pow2 f) = of_int (R - U) * pow2 f"
    using UR R53 U0 f(3) by (intro fl_exact) simp_all
  moreover have "of_int (R - U) * pow2 f = a - 1" using a one by (simp add: algebra_simps)
  ultimately have "fl (a - 1) = a - 1" by simp
  then show ?thesis using fl_minus [of "a - 1"] by simp
qed

lemma fexp_mono_abs:
  assumes "x \<noteq> 0" "\<bar>x\<bar> \<le> \<bar>y\<bar>"
  shows "fexp x \<le> fexp y"
proof -
  have "ilog2 \<bar>x\<bar> \<le> ilog2 \<bar>y\<bar>" using assms by (intro ilog2_mono) simp_all
  then show ?thesis by (simp add: fexp_def)
qed

lemma round_even_half: "even W \<Longrightarrow> round_even (of_int W + 1 / 2) = W"
proof -
  assume W: "even W"
  have "\<lfloor>real_of_int W + 1 / 2\<rfloor> = W" by (simp add: floor_eq_iff)
  then show ?thesis using W by (simp add: round_even_def)
qed

lemma fl_tie:
  assumes "1 \<le> M" "M \<le> 2 ^ 52"
  shows "fl (of_int M + pow2 (fexp (of_int M)) / 2) = of_int M"
proof -
  have pos: "0 < real_of_int M" using assms(1) by simp
  define k where "k = ilog2 (real_of_int M)"
  note b = ilog2_bounds [OF pos, folded k_def]
  have "pow2 0 < pow2 (k + 1)" using b assms(1) by simp
  then have k0: "0 \<le> k" using pow2_mono [of "k + 1" 0] by fastforce
  have k52: "k \<le> 52" unfolding k_def using assms by (rule int_ulp(1))
  define f where "f = k - 52"
  have f: "fexp (of_int M) = f" "f \<le> 0" using k0 k52 by (simp_all add: fexp_pos [OF pos] k_def f_def)
  define W where "W = M * 2 ^ nat (- f)"
  have "pow2 (- f) = of_int (2 ^ nat (- f))" using f(2) by (intro pow2_nonneg_int) simp
  then have "real_of_int W * pow2 f = of_int M * (pow2 (- f) * pow2 f)" by (simp add: W_def)
  also have "pow2 (- f) * pow2 f = 1" using pow2_add [of "- f" f] by simp
  finally have W: "real_of_int M = of_int W * pow2 f" by simp
  have evenW: "even W"
  proof (cases "k = 52")
    case True
    then have "pow2 52 \<le> real_of_int M" using b by simp
    then have "real_of_int (2 ^ 52) \<le> of_int M" by (simp add: pow2_def)
    then have "2 ^ 52 \<le> M" using of_int_le_iff by blast
    then have "M = 2 ^ 52" using assms(2) by simp
    then show ?thesis by (simp add: W_def)
  next
    case False
    then have "0 < nat (- f)" using k52 by (simp add: f_def)
    then show ?thesis by (simp add: W_def)
  qed
  have p1: "pow2 (k + 1) = pow2 53 * pow2 f" using pow2_add [of 53 f] by (simp add: f_def add.commute)
  have p0: "pow2 k = pow2 52 * pow2 f" using pow2_add [of 52 f] by (simp add: f_def)
  have "of_int W * pow2 f < pow2 53 * pow2 f" using b W p1 by simp
  then have "real_of_int W < pow2 53" by simp
  then have "real_of_int W < of_int (2 ^ 53)" by (simp add: pow2_def)
  then have "W < 2 ^ 53" using of_int_less_iff by blast
  then have "W + 1 \<le> 2 ^ 53" by simp
  then have "real_of_int (W + 1) \<le> of_int (2 ^ 53)" using of_int_le_iff by blast
  then have W53: "real_of_int W + 1 / 2 < pow2 53" by (simp add: pow2_def)
  define x where "x = real_of_int M + pow2 f / 2"
  have x: "x = (of_int W + 1 / 2) * pow2 f" by (simp add: x_def W algebra_simps)
  have "ilog2 x = k"
  proof (rule ilog2_unique)
    have "0 \<le> pow2 f / 2" by simp
    then show "pow2 k \<le> x" using b unfolding x_def by linarith
    have "(of_int W + 1 / 2) * pow2 f < pow2 53 * pow2 f"
      using W53 by (intro mult_strict_right_mono) simp_all
    then show "x < pow2 (k + 1)" by (simp add: x p1)
  qed
  moreover have xpos: "0 < x" using pos by (simp add: x_def add_pos_nonneg)
  ultimately have fx: "fexp x = f" using k0 by (simp add: fexp_pos f_def)
  have "fl x = of_int (round_even (x / pow2 f)) * pow2 f" using xpos by (simp add: fl_def fx)
  also have "x / pow2 f = of_int W + 1 / 2" by (simp add: x)
  also have "round_even (of_int W + 1 / 2) = W" using evenW by (rule round_even_half)
  finally have "fl x = of_int W * pow2 f" .
  then have "fl x = of_int M" using W by simp
  then show ?thesis by (simp add: x_def f(1))
qed

lemma lerp_end_lower:
  assumes "fl a = a" "1 \<le> a" "a \<le> 2 ^ 52" "1 \<le> b"
  shows "1 \<le> fl (a + fl (b - a))"
proof -
  have "fl (1 - a) \<le> fl (b - a)" using assms(4) by (intro fl_mono) simp
  then have "1 \<le> a + fl (b - a)" using fl_one_minus_exact [OF assms(1-3)] by simp
  then show ?thesis using fl_ge [of 1 "a + fl (b - a)"] fl_consts(1) by simp
qed

lemma lerp_end_upper:
  assumes "0 \<le> a" "a \<le> of_int M" "b \<le> of_int M" "1 \<le> M" "M \<le> 2 ^ 52"
  shows "fl (a + fl (b - a)) \<le> of_int M"
proof -
  define y where "y = real_of_int M - a"
  have y0: "0 \<le> y" using assms(2) by (simp add: y_def)
  have le: "fl (b - a) \<le> fl y" using assms(3) by (intro fl_mono) (simp add: y_def)
  have M: "fl (real_of_int M) = of_int M" using assms(4,5) by (intro fl_of_int) simp
  show ?thesis
  proof (cases "y = 0")
    case True
    then have "a + fl (b - a) \<le> of_int M" using le by (simp add: y_def)
    then show ?thesis using M by (rule fl_le)
  next
    case False
    have "\<bar>y\<bar> \<le> \<bar>real_of_int M\<bar>" using y0 assms(1) by (simp add: y_def)
    then have "fexp y \<le> fexp (of_int M)" using False by (intro fexp_mono_abs)
    then have "pow2 (fexp y) \<le> pow2 (fexp (of_int M))" by (rule pow2_mono)
    then have "fl y \<le> y + pow2 (fexp (of_int M)) / 2" using fl_error [of y] by linarith
    then have "a + fl (b - a) \<le> of_int M + pow2 (fexp (of_int M)) / 2"
      using le by (simp add: y_def)
    then have "fl (a + fl (b - a)) \<le> fl (of_int M + pow2 (fexp (of_int M)) / 2)"
      by (rule fl_mono)
    then show ?thesis using fl_tie [OF assms(4,5)] by simp
  qed
qed

lemma crop_dim:
  assumes "1 \<le> w" "w \<le> 2 ^ 52" "1 \<le> s" "s \<le> of_int w"
  shows "bnd (num_truediv (PInt w) (PFloat (Fin s))) num_int = Inr (trunc (fl (of_int w / s)))"
    and "1 \<le> trunc (fl (of_int w / s))" and "trunc (fl (of_int w / s)) \<le> w"
proof -
  define q where "q = real_of_int w / s"
  have w53: "\<bar>w\<bar> \<le> 2 ^ 53" using assms(1,2) by simp
  have fw: "fl (of_int w) = of_int w" using w53 by (rule fl_of_int)
  have q: "1 \<le> q" "q \<le> of_int w"
    using assms(3,4) by (simp_all add: q_def field_simps)
  have fq: "1 \<le> fl q" "fl q \<le> of_int w"
    using q fl_ge [of 1 q] fl_le [of q "of_int w"] fl_consts(1) fw by simp_all
  have "real_of_int w \<le> 2 ^ 52"
    using assms(2) of_int_le_iff [of w "2 ^ 52", where ?'a = real] by simp
  then have "\<bar>q\<bar> \<le> 2 ^ 1023" using q by simp
  then show "bnd (num_truediv (PInt w) (PFloat (Fin s))) num_int = Inr (trunc (fl (of_int w / s)))"
    using assms(3) by (simp add: div_int_float [OF w53] rnd_small q_def del: num_truediv.simps)
  show "1 \<le> trunc (fl (of_int w / s))" using fq(1) trunc_ge [of 1 "fl q"] by (simp add: q_def)
  show "trunc (fl (of_int w / s)) \<le> w" using fq trunc_le [of "fl q" w] by (simp add: q_def)
qed

lemma crop_pos:
  assumes "0 \<le> n" "n \<le> 2 ^ 52" "\<bar>x\<bar> \<le> 2 ^ 962"
  shows "\<exists>xa. bnd (num_mul (PInt n) (PFloat (Fin x))) num_int = Inr xa"
proof -
  have n53: "\<bar>n\<bar> \<le> 2 ^ 53" using assms(1,2) by simp
  have "\<bar>real_of_int n\<bar> \<le> 2 ^ 52"
    using assms(1,2) of_int_le_iff [of n "2 ^ 52", where ?'a = real] by simp
  then have "\<bar>real_of_int n\<bar> * \<bar>x\<bar> \<le> 2 ^ 52 * 2 ^ 962"
    using assms(3) by (intro mult_mono) simp_all
  then have "\<bar>real_of_int n * x\<bar> \<le> 2 ^ 1023" by (simp add: abs_mult)
  then show ?thesis by (simp add: mul_int_float [OF n53] rnd_small del: num_mul.simps)
qed

lemma crop_window_inside:
  assumes "1 \<le> w" "w \<le> 2 ^ 52" "1 \<le> h" "h \<le> 2 ^ 52"
    and "scale st = PFloat (Fin s)" "1 \<le> s" "s \<le> of_int w" "s \<le> of_int h"
    and "cx st = PFloat (Fin x)" "\<bar>x\<bar> \<le> 2 ^ 962" "cy st = PFloat (Fin y)" "\<bar>y\<bar> \<le> 2 ^ 962"
  shows "\<exists>c. crop_window w h st = Inr c \<and> 0 \<le> x1 c \<and> x1 c < x2 c \<and> x2 c \<le> w \<and>
      0 \<le> y1 c \<and> y1 c < y2 c \<and> y2 c \<le> h"
proof -
  define cw where "cw = trunc (fl (of_int w / s))"
  define ch where "ch = trunc (fl (of_int h / s))"
  note dw = crop_dim [OF assms(1,2,6,7), folded cw_def]
  note dh = crop_dim [OF assms(3,4,6,8), folded ch_def]
  obtain xa where xa: "bnd (num_mul (PInt (w - cw)) (PFloat (Fin x))) num_int = Inr xa"
    using crop_pos [of "w - cw" x] dw(2,3) assms(2,10) by auto
  obtain ya where ya: "bnd (num_mul (PInt (h - ch)) (PFloat (Fin y))) num_int = Inr ya"
    using crop_pos [of "h - ch" y] dh(2,3) assms(4,12) by auto
  have "crop_window w h st =
      Inr \<lparr>crop_w = cw, crop_h = ch, x1 = max 0 (min xa (w - cw)), y1 = max 0 (min ya (h - ch)),
           x2 = max 0 (min xa (w - cw)) + cw, y2 = max 0 (min ya (h - ch)) + ch\<rparr>"
    unfolding crop_window_def assms(5,9,11) dw(1) dh(1) xa ya bnd_simps Let_def ..
  then show ?thesis using dw(2,3) dh(2,3) by auto
qed

lemma motion_state_value:
  assumes "moderate_spec m" "0 \<le> i" "i < N"
  shows "\<exists>t. 0 \<le> t \<and> t \<le> 1 \<and>
     motion_state i N m =
       Inr \<lparr>scale = PFloat (Fin (fl (num_real (start_scale m) +
                 fl (fl (num_real (end_scale m) - num_real (start_scale m)) * t)))),
            cx = PFloat (Fin (fl (num_real (start_x m) +
                 fl (fl (num_real (end_x m) - num_real (start_x m)) * t)))),
            cy = PFloat (Fin (fl (num_real (start_y m) +
                 fl (fl (num_real (end_y m) - num_real (start_y m)) * t))))\<rparr>"
proof -
  obtain t where t: "frame_progress i N = Inr (PFloat (Fin t))" "0 \<le> t" "t \<le> 1"
    using frame_progress_range [OF assms(2,3)] by blast
  have m: "moderate (start_scale m)" "moderate (end_scale m)" "moderate (start_x m)"
    "moderate (end_x m)" "moderate (start_y m)" "moderate (end_y m)"
    using assms(1) by (simp_all add: moderate_spec_def)
  show ?thesis
    using t(2,3)
    by (intro exI [of _ t])
      (simp add: motion_state_def t(1) interpolate_value(1) [OF _ _ t(2,3)] m)
qed

text \<open>
  Claim C2, as amended. For every source image whose width \<open>w\<close> and height \<open>h\<close> lie
  between 1 and \<open>2\<^sup>5\<^sup>2\<close>, every motion spec whose fields are finite floats, or ints that
  a float represents exactly (as every int of magnitude up to \<open>2\<^sup>5\<^sup>3\<close> is), of magnitude
  at most \<open>2\<^sup>9\<^sup>6\<^sup>0\<close>, with \<^verbatim>\<open>start_scale\<close> and \<^verbatim>\<open>end_scale\<close> both between 1 and
  \<open>min w h\<close>, and every frame index \<open>i\<close> in \<open>[0, total_frames)\<close>, the frame generator
  computes a crop window with \<open>0 \<le> x1 < x2 \<le> w\<close> and \<open>0 \<le> y1 < y2 \<le> h\<close>.
\<close>

theorem crop_window_in_bounds:
  assumes "1 \<le> w" "w \<le> 2 ^ 52" "1 \<le> h" "h \<le> 2 ^ 52"
    and "moderate_spec m"
    and "1 \<le> num_real (start_scale m)" "num_real (start_scale m) \<le> of_int (min w h)"
    and "1 \<le> num_real (end_scale m)" "num_real (end_scale m) \<le> of_int (min w h)"
    and "0 \<le> i" "i < N"
  shows "\<exists>st c. motion_state i N m = Inr st \<and> crop_window w h st = Inr c \<and>
     0 \<le> x1 c \<and> x1 c < x2 c \<and> x2 c \<le> w \<and> 0 \<le> y1 c \<and> y1 c < y2 c \<and> y2 c \<le> h"
proof -
  define a where "a = num_real (start_scale m)"
  define b where "b = num_real (end_scale m)"
  define M where "M = min w h"
  have m: "moderate (start_scale m)" "moderate (end_scale m)" "moderate (start_x m)"
    "moderate (end_x m)" "moderate (start_y m)" "moderate (end_y m)"
    using assms(5) by (simp_all add: moderate_spec_def)
  have fa: "fl a = a" using moderate_real(1) [OF m(1)] by (simp add: a_def)
  have M: "1 \<le> M" "M \<le> 2 ^ 52" "M \<le> w" "M \<le> h" using assms(1-4) by (simp_all add: M_def)
  have "real_of_int M \<le> 2 ^ 52"
    using M(2) of_int_le_iff [of M "2 ^ 52", where ?'a = real] by simp
  then have a52: "a \<le> 2 ^ 52" using assms(7) by (simp add: a_def M_def)
  have lo: "1 \<le> fl (a + fl (b - a))"
    using fa assms(6) a52 assms(8) unfolding a_def b_def by (rule lerp_end_lower)
  have hi: "fl (a + fl (b - a)) \<le> of_int M"
    using assms(6,7,9) M(1,2) unfolding a_def b_def M_def by (intro lerp_end_upper) simp_all
  obtain t where t: "0 \<le> t" "t \<le> 1" and st: "motion_state i N m =
       Inr \<lparr>scale = PFloat (Fin (fl (a + fl (fl (b - a) * t)))),
            cx = PFloat (Fin (fl (num_real (start_x m) +
                 fl (fl (num_real (end_x m) - num_real (start_x m)) * t)))),
            cy = PFloat (Fin (fl (num_real (start_y m) +
                 fl (fl (num_real (end_y m) - num_real (start_y m)) * t))))\<rparr>"
    using motion_state_value [OF assms(5,10,11)] unfolding a_def b_def by blast
  define s where "s = fl (a + fl (fl (b - a) * t))"
  have "min a (fl (a + fl (b - a))) \<le> s" "s \<le> max a (fl (a + fl (b - a)))"
    unfolding s_def using t fa by (rule lerp_between)+
  then have s: "1 \<le> s" "s \<le> of_int M" using lo hi assms(6,7) by (simp_all add: a_def M_def)
  have sw: "s \<le> of_int w" "s \<le> of_int h"
    using s(2) M(3,4) of_int_le_iff [of M w, where ?'a = real]
      of_int_le_iff [of M h, where ?'a = real] by linarith+
  have "\<exists>c. crop_window w h
       \<lparr>scale = PFloat (Fin s),
        cx = PFloat (Fin (fl (num_real (start_x m) +
             fl (fl (num_real (end_x m) - num_real (start_x m)) * t)))),
        cy = PFloat (Fin (fl (num_real (start_y m) +
             fl (fl (num_real (end_y m) - num_real (start_y m)) * t))))\<rparr> = Inr c \<and>
      0 \<le> x1 c \<and> x1 c < x2 c \<and> x2 c \<le> w \<and> 0 \<le> y1 c \<and> y1 c < y2 c \<and> y2 c \<le> h"
    using assms(1-4) _ s(1) sw
  proof (rule crop_window_inside)
    show "\<bar>fl (num_real (start_x m) +
             fl (fl (num_real (end_x m) - num_real (start_x m)) * t))\<bar> \<le> 2 ^ 962"
      using m(3,4) t by (rule interpolate_value(2))
    show "\<bar>fl (num_real (start_y m) +
             fl (fl (num_real (end_y m) - num_real (start_y m)) * t))\<bar> \<le> 2 ^ 962"
      using m(5,6) t by (rule interpolate_value(2))
  qed simp_all
  then show ?thesis using st unfolding s_def by blast
qed

lemma zoom_in_moderate: "moderate_spec (mk_motion 1 (13/10) (1/2) (1/2) (1/2) (1/2))"
  using presets_moderate_exact by (simp add: MOTION_PRESETS_def)

text \<open>
  The last of twelve frames on a 64 by 48 image, for the \<^verbatim>\<open>zoom_in\<close> preset and for the
  custom motion with the integer values \<^verbatim>\<open>start_scale = 1\<close>, \<^verbatim>\<open>end_scale = 2\<close>,
  \<^verbatim>\<open>start_x = 0\<close> and \<^verbatim>\<open>end_x = 1\<close>.
\<close>

theorem crop_window_in_bounds_witness:
  "moderate_spec (mk_motion 1 (13/10) (1/2) (1/2) (1/2) (1/2)) \<and>
   (\<exists>st c. motion_state 11 12 (mk_motion 1 (13/10) (1/2) (1/2) (1/2) (1/2)) = Inr st \<and>
      crop_window 64 48 st = Inr c \<and>
      0 \<le> x1 c \<and> x1 c < x2 c \<and> x2 c \<le> 64 \<and> 0 \<le> y1 c \<and> y1 c < y2 c \<and> y2 c \<le> 48) \<and>
   crop_window 64 48
     \<lparr>scale = PFloat (Fin (5854679515581645 / 4503599627370496)),
      cx = PFloat (Fin (1/2)), cy = PFloat (Fin (1/2))\<rparr> =
     Inr \<lparr>crop_w = 49, crop_h = 36, x1 = 7, y1 = 6, x2 = 56, y2 = 42\<rparr> \<and>
   select_motion (Some int_motion) ''zoom_in'' = Inr int_spec \<and>
   moderate_spec int_spec \<and>
   (\<exists>st c. motion_state 11 12 int_spec = Inr st \<and>
      crop_window 64 48 st = Inr c \<and>
      0 \<le> x1 c \<and> x1 c < x2 c \<and> x2 c \<le> 64 \<and> 0 \<le> y1 c \<and> y1 c < y2 c \<and> y2 c \<le> 48) \<and>
   crop_window 64 48 \<lparr>scale = PFloat (Fin 2), cx = PFloat (Fin 1), cy = PFloat (Fin (1/2))\<rparr> =
     Inr \<lparr>crop_w = 32, crop_h = 24, x1 = 32, y1 = 12, x2 = 64, y2 = 36\<rparr>"
proof -
  define Z where "Z = mk_motion 1 (13/10) (1/2) (1/2) (1/2) (1/2)"
  have m: "moderate_spec Z" unfolding Z_def by (rule zoom_in_moderate)
  have s: "1 \<le> num_real (start_scale Z)" "num_real (start_scale Z) \<le> of_int (min 64 48)"
    "1 \<le> num_real (end_scale Z)" "num_real (end_scale Z) \<le> of_int (min 64 48)"
    by (simp_all add: Z_def zoom_in_value)
  have z1: "\<exists>st c. motion_state 11 12 Z = Inr st \<and> crop_window 64 48 st = Inr c \<and>
      0 \<le> x1 c \<and> x1 c < x2 c \<and> x2 c \<le> 64 \<and> 0 \<le> y1 c \<and> y1 c < y2 c \<and> y2 c \<le> 48"
    using crop_window_in_bounds [of 64 48 Z 11 12, OF _ _ _ _ m s] by simp
  have z2: "crop_window 64 48
     \<lparr>scale = PFloat (Fin (5854679515581645 / 4503599627370496)),
      cx = PFloat (Fin (1/2)), cy = PFloat (Fin (1/2))\<rparr> =
     Inr \<lparr>crop_w = 49, crop_h = 36, x1 = 7, y1 = 6, x2 = 56, y2 = 42\<rparr>"
    by (simp add: crop_window_def fl_eval num_eval)
  have mi: "moderate_spec int_spec" using int_spec_moderate_exact by simp
  have si: "1 \<le> num_real (start_scale int_spec)"
    "num_real (start_scale int_spec) \<le> of_int (min 64 48)"
    "1 \<le> num_real (end_scale int_spec)" "num_real (end_scale int_spec) \<le> of_int (min 64 48)"
    by (simp_all add: int_spec_def)
  have i1: "\<exists>st c. motion_state 11 12 int_spec = Inr st \<and> crop_window 64 48 st = Inr c \<and>
      0 \<le> x1 c \<and> x1 c < x2 c \<and> x2 c \<le> 64 \<and> 0 \<le> y1 c \<and> y1 c < y2 c \<and> y2 c \<le> 48"
    using crop_window_in_bounds [of 64 48 int_spec 11 12, OF _ _ _ _ mi si] by simp
  have i2: "crop_window 64 48
     \<lparr>scale = PFloat (Fin 2), cx = PFloat (Fin 1), cy = PFloat (Fin (1/2))\<rparr> =
     Inr \<lparr>crop_w = 32, crop_h = 24, x1 = 32, y1 = 12, x2 = 64, y2 = 36\<rparr>"
    by (simp add: crop_window_def fl_eval num_eval)
  show ?thesis
    using m z1 z2 mi i1 i2 int_motion_spec [of "''zoom_in''"] unfolding Z_def by blast
qed

text \<open>
  Claim C2 as stated fails on a 2 by 2 image: a constant scale of 3 gives the empty
  window with \<open>x1 = x2 = 1\<close>, and a constant scale of 0.5 gives the window \<open>[0, 4)\<close>,
  twice as wide as the image.
\<close>

theorem crop_window_out_of_bounds:
  "bnd (motion_state 0 12 (mk_motion 3 3 (1/2) (1/2) (1/2) (1/2))) (crop_window 2 2) =
     Inr \<lparr>crop_w = 0, crop_h = 0, x1 = 1, y1 = 1, x2 = 1, y2 = 1\<rparr> \<and>
   bnd (motion_state 0 12 (mk_motion (1/2) (1/2) (1/2) (1/2) (1/2) (1/2))) (crop_window 2 2) =
     Inr \<lparr>crop_w = 4, crop_h = 4, x1 = 0, y1 = 0, x2 = 4, y2 = 4\<rparr>"
proof -
  have d: "dbl 3 = PFloat (Fin 3)" using rnd_of_int [of 3] by (simp add: dbl_def)
  have m: "moderate (PFloat (Fin 3))" "moderate (PFloat (Fin (1/2)))"
    using fl_of_int [of 3] by (simp_all add: fl_eval)
  have s3: "motion_state 0 12 (mk_motion 3 3 (1/2) (1/2) (1/2) (1/2)) =
      Inr \<lparr>scale = PFloat (Fin 3), cx = PFloat (Fin (1/2)), cy = PFloat (Fin (1/2))\<rparr>"
    by (simp add: motion_state_def frame_progress_first interpolate_first [OF m(1) m(1)]
        interpolate_first [OF m(2) m(2)] mk_motion_def d dbl_values)
  have sh: "motion_state 0 12 (mk_motion (1/2) (1/2) (1/2) (1/2) (1/2) (1/2)) =
      Inr \<lparr>scale = PFloat (Fin (1/2)), cx = PFloat (Fin (1/2)), cy = PFloat (Fin (1/2))\<rparr>"
    by (simp add: motion_state_def frame_progress_first interpolate_first [OF m(2) m(2)]
        mk_motion_def dbl_values)
  show ?thesis
    unfolding s3 sh by (simp add: crop_window_def fl_eval num_eval)
qed

section \<open>The request handler\<close>

subsection \<open>Clamped duration and frame rate\<close>

lemma clamp_num:
  assumes "x \<noteq> PFloat NaN" "lo \<le> hi"
  shows "(\<exists>n. py_min (py_max x (PInt lo)) (PInt hi) = PInt n \<and> lo \<le> n \<and> n \<le> hi) \<or>
     (\<exists>a. py_min (py_max x (PInt lo)) (PInt hi) = PFloat (Fin a) \<and> x = PFloat (Fin a) \<and>
          of_int lo \<le> a \<and> a \<le> of_int hi)"
proof (cases x)
  case (PInt n)
  then show ?thesis using assms(2) by (auto simp: py_max_def py_min_def num_lt_def)
next
  case (PFloat y)
  then show ?thesis
    using assms by (cases y) (auto simp: py_max_def py_min_def num_lt_def)
qed

lemma clamp_duration_cases:
  assumes "d \<noteq> Some (PFloat NaN)"
  shows "(\<exists>n. clamp_duration d = PInt n \<and> 1 \<le> n \<and> n \<le> 10) \<or>
     (\<exists>a. clamp_duration d = PFloat (Fin a) \<and> d = Some (PFloat (Fin a)) \<and> 1 \<le> a \<and> a \<le> 10)"
proof -
  have "dflt d (PInt 3) \<noteq> PFloat NaN" using assms by (cases d) (simp_all add: dflt_def)
  then show ?thesis
    using clamp_num [of "dflt d (PInt 3)" 1 10]
    by (cases d) (auto simp: clamp_duration_def dflt_def)
qed

lemma clamp_fps_cases:
  assumes "f \<noteq> Some (PFloat NaN)"
  shows "(\<exists>n. clamp_fps f = PInt n \<and> 12 \<le> n \<and> n \<le> 60) \<or>
     (\<exists>a. clamp_fps f = PFloat (Fin a) \<and> f = Some (PFloat (Fin a)) \<and> 12 \<le> a \<and> a \<le> 60)"
proof -
  have "dflt f (PInt 24) \<noteq> PFloat NaN" using assms by (cases f) (simp_all add: dflt_def)
  then show ?thesis
    using clamp_num [of "dflt f (PInt 24)" 12 60]
    by (cases f) (auto simp: clamp_fps_def dflt_def)
qed

lemma clamp_real:
  assumes "d \<noteq> Some (PFloat NaN)" "f \<noteq> Some (PFloat NaN)"
  shows "1 \<le> num_real (clamp_duration d)" "num_real (clamp_duration d) \<le> 10"
    "12 \<le> num_real (clamp_fps f)" "num_real (clamp_fps f) \<le> 60"
  using clamp_duration_cases [OF assms(1)] clamp_fps_cases [OF assms(2)] by auto

lemma trunc_of_int [simp]: "trunc (of_int n) = n"
  by (simp add: trunc_def)

lemma num_mul_small:
  assumes "(\<exists>n. D = PInt n \<and> \<bar>n\<bar> \<le> 2 ^ 20) \<or> (\<exists>a. D = PFloat (Fin a))"
    and "(\<exists>n. F = PInt n \<and> \<bar>n\<bar> \<le> 2 ^ 20) \<or> (\<exists>a. F = PFloat (Fin a))"
    and "\<bar>num_real D * num_real F\<bar> \<le> 2 ^ 40"
  shows "bnd (num_mul D F) num_int = Inr (trunc (fl (num_real D * num_real F)))"
proof -
  have big: "\<bar>num_real D * num_real F\<bar> \<le> 2 ^ 1023" using assms(3) by simp
  have small: "\<bar>n\<bar> \<le> 2 ^ 53" if "\<bar>n\<bar> \<le> 2 ^ 20" for n :: int using that by simp
  consider n k where "D = PInt n" "F = PInt k" "\<bar>n\<bar> \<le> 2 ^ 20" "\<bar>k\<bar> \<le> 2 ^ 20"
    | n b where "D = PInt n" "F = PFloat (Fin b)" "\<bar>n\<bar> \<le> 2 ^ 20"
    | a k where "D = PFloat (Fin a)" "F = PInt k" "\<bar>k\<bar> \<le> 2 ^ 20"
    | a b where "D = PFloat (Fin a)" "F = PFloat (Fin b)"
    using assms(1,2) by blast
  then show ?thesis
  proof cases
    case 1
    have "\<bar>n * k\<bar> \<le> 2 ^ 20 * 2 ^ 20" unfolding abs_mult using 1(3,4) by (intro mult_mono) simp_all
    then have "\<bar>n * k\<bar> \<le> 2 ^ 53" by simp
    then have e: "fl (real_of_int (n * k)) = of_int (n * k)" by (rule fl_of_int)
    have "trunc (fl (real_of_int (n * k))) = n * k" unfolding e by (rule trunc_of_int)
    then have "trunc (fl (real_of_int n * real_of_int k)) = n * k" unfolding of_int_mult .
    then show ?thesis by (simp add: 1)
  next
    case 2
    have "to_float (PInt n) = Inr (Fin (of_int n))" using 2(3) by (intro to_float_small small)
    then show ?thesis using big by (simp add: 2 rnd_small del: to_float.simps(2))
  next
    case 3
    have "to_float (PInt k) = Inr (Fin (of_int k))" using 3(3) by (intro to_float_small small)
    then show ?thesis using big by (simp add: 3 rnd_small del: to_float.simps(2))
  next
    case 4
    then show ?thesis using big by (simp add: rnd_small)
  qed
qed

lemma frame_count_value:
  assumes "d \<noteq> Some (PFloat NaN)" "f \<noteq> Some (PFloat NaN)"
  shows "frame_count (clamp_duration d) (clamp_fps f) =
      Inr (trunc (fl (num_real (clamp_duration d) * num_real (clamp_fps f))))"
    and "12 \<le> trunc (fl (num_real (clamp_duration d) * num_real (clamp_fps f)))"
    and "trunc (fl (num_real (clamp_duration d) * num_real (clamp_fps f))) \<le> 600"
proof -
  define D where "D = clamp_duration d"
  define F where "F = clamp_fps f"
  define p where "p = num_real D * num_real F"
  note r = clamp_real [OF assms, folded D_def F_def]
  have "1 * 12 \<le> num_real D * num_real F" using r by (intro mult_mono) simp_all
  moreover have "num_real D * num_real F \<le> 10 * 60" using r by (intro mult_mono) simp_all
  ultimately have p: "12 \<le> p" "p \<le> 600" by (simp_all add: p_def)
  have fp: "12 \<le> fl p" "fl p \<le> 600"
    using p fl_ge [of 12 p] fl_le [of p 600] fl_of_int [of 12] fl_of_int [of 600] by simp_all
  show "frame_count D F = Inr (trunc (fl (num_real D * num_real F)))"
    unfolding frame_count_def
  proof (rule num_mul_small)
    show "(\<exists>n. D = PInt n \<and> \<bar>n\<bar> \<le> 2 ^ 20) \<or> (\<exists>a. D = PFloat (Fin a))"
      using clamp_duration_cases [OF assms(1)] unfolding D_def by auto
    show "(\<exists>n. F = PInt n \<and> \<bar>n\<bar> \<le> 2 ^ 20) \<or> (\<exists>a. F = PFloat (Fin a))"
      using clamp_fps_cases [OF assms(2)] unfolding F_def by auto
    show "\<bar>num_real D * num_real F\<bar> \<le> 2 ^ 40" using p by (simp add: p_def)
  qed
  show "12 \<le> trunc (fl (num_real D * num_real F))"
    using fp(1) trunc_ge [of 12 "fl p"] by (simp add: p_def)
  show "trunc (fl (num_real D * num_real F)) \<le> 600"
    using fp trunc_le [of "fl p" 600] by (simp add: p_def)
qed

subsection \<open>The frame delay of a GIF\<close>

lemma frame_delay_eq:
  assumes "f \<noteq> Some (PFloat NaN)"
  shows "frame_delay (clamp_fps f) = Inr (trunc (fl (1000 / num_real (clamp_fps f))))"
    and "16 \<le> trunc (fl (1000 / num_real (clamp_fps f)))"
    and "trunc (fl (1000 / num_real (clamp_fps f))) \<le> 83"
proof -
  define F where "F = clamp_fps f"
  define x where "x = 1000 / num_real F"
  have r: "12 \<le> num_real F" "num_real F \<le> 60"
    using clamp_real(3,4) [OF assms assms] by (simp_all add: F_def)
  have x: "16 \<le> x" "x \<le> 167 / 2" using r by (simp_all add: x_def field_simps)
  have c: "fl 16 = 16" "fl (167 / 2) = 167 / 2"
    using fl_of_int [of 16] fl_exact [of 167 "- 1"] by (simp_all add: pow2_def)
  have fx: "16 \<le> fl x" "fl x \<le> 167 / 2"
    using x fl_ge [of 16 x] fl_le [of x "167 / 2"] c by simp_all
  have big: "\<bar>x\<bar> \<le> 2 ^ 1023" using x by simp
  have "num_truediv (PInt 1000) F = Inr (PFloat (Fin (fl x)))"
    using clamp_fps_cases [OF assms] r big rnd_of_int [of 1000]
    by (auto simp: F_def x_def rnd_small)
  then show "frame_delay F = Inr (trunc (fl (1000 / num_real F)))"
    by (simp add: frame_delay_def x_def)
  show "16 \<le> trunc (fl (1000 / num_real F))"
    using fx(1) trunc_ge [of 16 "fl x"] by (simp add: x_def)
  have "0 \<le> fl x" using fx(1) by simp
  then have "trunc (fl x) = \<lfloor>fl x\<rfloor>" by (simp add: trunc_def)
  moreover have "\<lfloor>fl x\<rfloor> \<le> 83" using fx(2) by (simp add: floor_le_iff)
  ultimately show "trunc (fl (1000 / num_real F)) \<le> 83" by (simp add: x_def)
qed

lemma frame_delay_int:
  assumes "12 \<le> k" "k \<le> 60"
  shows "trunc (fl (1000 / real_of_int k)) = 1000 div k"
proof -
  define q where "q = 1000 div k"
  define r where "r = 1000 mod k"
  define x where "x = 1000 / real_of_int k"
  have k: "0 < k" using assms(1) by simp
  have r: "0 \<le> r" "r \<le> k - 1" using k by (simp_all add: r_def)
  have q: "0 \<le> q" "q \<le> 1000" using k by (simp_all add: q_def pos_imp_zdiv_nonneg_iff)
    (smt (verit) assms(1) div_by_1 zdiv_mono2)
  have "1000 = q * k + r" by (simp add: q_def r_def)
  then have "(1000::real) = of_int q * of_int k + of_int r"
    by (metis of_int_add of_int_mult of_int_numeral)
  then have xq: "x = of_int q + of_int r / of_int k" using k by (simp add: x_def field_simps)
  define y where "y = real_of_int r / of_int k"
  have "y \<le> 1 - 1 / of_int k"
    using r(2) k by (simp add: y_def field_simps)
  moreover have "1 / 64 \<le> 1 / real_of_int k" using assms by (simp add: field_simps)
  moreover have "0 \<le> y" using r(1) k by (simp add: y_def)
  ultimately have y: "0 \<le> y" "y \<le> 63 / 64" by linarith+
  have "real_of_int (64 * q + 63) * pow2 (- 6) = of_int q + 63 / 64"
    by (simp add: pow2_def field_simps)
  then have x: "of_int q \<le> x" "x \<le> of_int (64 * q + 63) * pow2 (- 6)"
    using y by (simp_all add: xq y_def [symmetric])
  have c: "fl (real_of_int q) = of_int q" using q by (intro fl_of_int) simp
  have c': "fl (of_int (64 * q + 63) * pow2 (- 6)) = of_int (64 * q + 63) * pow2 (- 6)"
    using q by (intro fl_exact) simp_all
  have fx: "of_int q \<le> fl x" "fl x \<le> of_int (64 * q + 63) * pow2 (- 6)"
    using x c c' fl_ge [of "of_int q" x] fl_le [of x "of_int (64 * q + 63) * pow2 (- 6)"]
    by simp_all
  have "fl x < of_int q + 1" using fx(2) by (simp add: pow2_def field_simps)
  then have "\<lfloor>fl x\<rfloor> = q" using fx(1) by (simp add: floor_eq_iff)
  moreover have "0 \<le> fl x" using fx(1) q(1) by simp
  ultimately show ?thesis by (simp add: trunc_def x_def q_def)
qed

subsection \<open>What a successful response was built from\<close>

lemma resize_dims: "resize p src dst = Inr f \<Longrightarrow> width f = fst dst \<and> height f = snd dst"
  by (auto simp: resize_def split: if_splits)

lemma generate_frame_dims:
  "generate_frame p img i n m = Inr f \<Longrightarrow> width f = width img \<and> height f = height img"
  by (auto simp: generate_frame_def Let_def bnd_Inr dest: resize_dims)

lemma gen_frames_length:
  "gen_frames p img n m js = Inr fs \<Longrightarrow> length fs = length js"
  by (induction js arbitrary: fs) (auto simp: bnd_Inr)

lemma gen_frames_dims:
  "gen_frames p img n m js = Inr fs \<Longrightarrow>
   \<forall>f \<in> set fs. width f = width img \<and> height f = height img"
  by (induction js arbitrary: fs) (auto simp: bnd_Inr dest: generate_frame_dims)

lemma gen_frames_ok:
  "(\<And>j. j \<in> set js \<Longrightarrow> \<exists>f. generate_frame p img j n m = Inr f) \<Longrightarrow>
   \<exists>fs. gen_frames p img n m js = Inr fs"
proof (induction js)
  case Nil
  then show ?case by simp
next
  case (Cons j js)
  obtain f where f: "generate_frame p img j n m = Inr f" using Cons.prems [of j] by auto
  obtain fs where fs: "gen_frames p img n m js = Inr fs" using Cons by auto
  show ?case by (simp add: f fs)
qed

lemma even_image_dims:
  "even_image p dims = Inr img \<Longrightarrow>
   width img = (fst dims div 2) * 2 \<and> height img = (snd dims div 2) * 2"
  by (auto simp: even_image_def Let_def split: if_splits dest: resize_dims)

lemma save_gif_value:
  "save_gif fs F opt = Inr v \<Longrightarrow>
   \<exists>d. frame_delay F = Inr d \<and> v = GifFile d 0 opt fs \<and> fs \<noteq> []"
  by (auto simp: save_gif_def bnd_Inr split: list.splits)

lemma replace_mp4_suffix [simp]: "replace_mp4 ''.mp4'' = ''.gif''"
  by simp

lemma save_fallback_value:
  "save_fallback known sfx fs F = Inr v \<Longrightarrow>
   \<exists>d. frame_delay F = Inr d \<and> fs \<noteq> [] \<and>
     (v = GifFile d 0 False fs \<and> sfx = ''.gif'' \<or>
      v = PilFile sfx d 0 fs \<and> sfx \<noteq> ''.gif'' \<and> known sfx)"
  by (auto simp: save_fallback_def bnd_Inr split: list.splits if_splits dest!: save_gif_value)

lemma export_value:
  assumes "export io known fmt fs F = Inr (v, fmt')"
  shows "video_frames v = fs"
    and "(\<exists>d. frame_delay F = Inr d \<and> v = GifFile d 0 (fmt = ''gif'') fs \<and> fmt' = ''gif'') \<or>
         (v = Mp4File F fs \<and> fmt' = fmt \<and> fmt \<noteq> ''gif'' \<and> io = WriterWorks) \<or>
         (\<exists>d sfx. frame_delay F = Inr d \<and> v = PilFile sfx d 0 fs \<and> fmt' = ''gif'' \<and>
            fmt \<noteq> ''gif'' \<and> io = ImportFails)"
  using assms
  by (auto simp: export_def bnd_Inr video_frames_def split: if_splits imageio_status.splits
      dest!: save_gif_value save_fallback_value)

lemma generate_Success:
  assumes "generate e data = Success r"
  obtains s dims img n fs v m where
    "req_image data = Some s" "s \<noteq> []"
    "select_motion (req_motion data) (dflt (req_preset data) ''zoom_in'') = Inr m"
    "decode e (strip_data_url s) = Some dims"
    "even_image (pil_resize e) dims = Inr img"
    "frame_count (clamp_duration (req_duration data)) (clamp_fps (req_fps data)) = Inr n"
    "gen_frames (pil_resize e) img n m (map int [0..<nat n]) = Inr fs"
    "export (imageio e) (pil_known e) (dflt (req_format data) ''gif'') fs (clamp_fps (req_fps data)) =
       Inr (v, res_format r)"
    "r = \<lparr>res_video = v, res_format = res_format r,
          res_duration = clamp_duration (req_duration data),
          res_fps = clamp_fps (req_fps data), res_frames = n,
          res_preset = dflt (req_preset data) ''zoom_in''\<rparr>"
proof -
  from assms obtain s m where s: "req_image data = Some s" "s \<noteq> []"
    and m: "select_motion (req_motion data) (dflt (req_preset data) ''zoom_in'') = Inr m"
    and syn: "synthesize e s (dflt (req_preset data) ''zoom_in'')
        (clamp_duration (req_duration data)) (clamp_fps (req_fps data))
        (dflt (req_format data) ''gif'') m = Inr r"
    by (auto simp: generate_def Let_def split: option.splits if_splits sum.splits)
  from syn obtain dims img n fs v fmt where
    "decode e (strip_data_url s) = Some dims"
    "even_image (pil_resize e) dims = Inr img"
    "frame_count (clamp_duration (req_duration data)) (clamp_fps (req_fps data)) = Inr n"
    "gen_frames (pil_resize e) img n m (map int [0..<nat n]) = Inr fs"
    "export (imageio e) (pil_known e) (dflt (req_format data) ''gif'') fs (clamp_fps (req_fps data)) =
       Inr (v, fmt)"
    "r = \<lparr>res_video = v, res_format = fmt,
          res_duration = clamp_duration (req_duration data),
          res_fps = clamp_fps (req_fps data), res_frames = n,
          res_preset = dflt (req_preset data) ''zoom_in''\<rparr>"
    by (auto simp: synthesize_def bnd_Inr split: option.splits prod.splits)
  then show ?thesis using s m that by auto
qed

subsection \<open>Requests that succeed\<close>

lemma generate_frame_ok:
  assumes "1 \<le> width img" "int (width img) \<le> 2 ^ 52" "1 \<le> height img" "int (height img) \<le> 2 ^ 52"
    and "pil_total p" "moderate_spec m"
    and "1 \<le> num_real (start_scale m)"
      "num_real (start_scale m) \<le> of_int (min (int (width img)) (int (height img)))"
    and "1 \<le> num_real (end_scale m)"
      "num_real (end_scale m) \<le> of_int (min (int (width img)) (int (height img)))"
    and "0 \<le> i" "i < n"
  shows "\<exists>f. generate_frame p img i n m = Inr f"
proof -
  define w where "w = int (width img)"
  define h where "h = int (height img)"
  have wh: "1 \<le> w" "w \<le> 2 ^ 52" "1 \<le> h" "h \<le> 2 ^ 52" using assms(1-4) by (simp_all add: w_def h_def)
  obtain st c where st: "motion_state i n m = Inr st" and c: "crop_window w h st = Inr c"
    and b: "0 \<le> x1 c" "x1 c < x2 c" "x2 c \<le> w" "0 \<le> y1 c" "y1 c < y2 c" "y2 c \<le> h"
    using crop_window_in_bounds [OF wh assms(6) assms(7-10) [folded w_def h_def] assms(11,12)]
    by blast
  have "0 < slice_len w (x1 c) (x2 c)" "0 < slice_len h (y1 c) (y2 c)"
    using b by (simp_all add: slice_len_def slice_bound_def)
  then have "p (slice_len w (x1 c) (x2 c), slice_len h (y1 c) (y2 c)) (width img, height img)"
    using assms(1,3,5) by (simp add: pil_total_def)
  then show ?thesis
    by (simp add: generate_frame_def Let_def st c resize_def w_def [symmetric] h_def [symmetric])
qed

lemma frames_ok:
  assumes "1 \<le> width img" "int (width img) \<le> 2 ^ 52" "1 \<le> height img" "int (height img) \<le> 2 ^ 52"
    and "pil_total p" "moderate_spec m"
    and "1 \<le> num_real (start_scale m)"
      "num_real (start_scale m) \<le> of_int (min (int (width img)) (int (height img)))"
    and "1 \<le> num_real (end_scale m)"
      "num_real (end_scale m) \<le> of_int (min (int (width img)) (int (height img)))"
  shows "\<exists>fs. gen_frames p img n m (map int [0..<nat n]) = Inr fs"
proof (rule gen_frames_ok)
  fix j assume "j \<in> set (map int [0..<nat n])"
  then have "0 \<le> j" "j < n" by auto
  then show "\<exists>f. generate_frame p img j n m = Inr f"
    using assms by (intro generate_frame_ok)
qed

lemma even_image_ok:
  assumes "pil_total p" "2 \<le> fst dims" "2 \<le> snd dims"
  shows "even_image p dims = Inr \<lparr>width = (fst dims div 2) * 2, height = (snd dims div 2) * 2\<rparr>"
proof -
  have "0 < (fst dims div 2) * 2" "0 < (snd dims div 2) * 2" using assms(2,3) by simp_all
  moreover have "0 < fst dims" "0 < snd dims" using assms(2,3) by simp_all
  ultimately have "p dims ((fst dims div 2) * 2, (snd dims div 2) * 2)"
    using assms(1) unfolding pil_total_def by (metis fst_conv snd_conv prod.collapse)
  then show ?thesis by (auto simp: even_image_def Let_def resize_def)
qed

lemma frame_count_not_nan:
  assumes "frame_count (clamp_duration d) (clamp_fps f) = Inr n"
  shows "d \<noteq> Some (PFloat NaN)" "f \<noteq> Some (PFloat NaN)"
proof -
  have nan: "clamp_duration (Some (PFloat NaN)) = PFloat NaN" "clamp_fps (Some (PFloat NaN)) = PFloat NaN"
    by (simp_all add: clamp_duration_def clamp_fps_def dflt_def py_max_def py_min_def num_lt_def)
  have l: "bnd (num_mul (PFloat NaN) y) num_int \<noteq> Inr n" for y
    by (cases y) (auto simp: bnd_def split: sum.splits pyfloat.splits)
  have r: "bnd (num_mul x (PFloat NaN)) num_int \<noteq> Inr n" for x
  proof (cases x)
    case (PInt k)
    then show ?thesis by (auto simp: bnd_def split: sum.splits pyfloat.splits)
  next
    case (PFloat y)
    then show ?thesis by (cases y) (auto simp: bnd_def)
  qed
  show "d \<noteq> Some (PFloat NaN)" using assms l by (auto simp: frame_count_def nan)
  show "f \<noteq> Some (PFloat NaN)" using assms r by (auto simp: frame_count_def nan)
qed

lemma export_ok:
  assumes "fs \<noteq> []" "f \<noteq> Some (PFloat NaN)"
    and "fmt = ''gif'' \<or> io = WriterWorks \<or>
      io = ImportFails \<and>
        (replace_mp4 (''.'' @ fmt) = ''.gif'' \<or> known (replace_mp4 (''.'' @ fmt)))"
  shows "\<exists>v fmt'. export io known fmt fs (clamp_fps f) = Inr (v, fmt')"
proof -
  obtain x xs where fs: "fs = x # xs" using assms(1) by (cases fs) auto
  have g: "save_gif fs (clamp_fps f) opt =
      Inr (GifFile (trunc (fl (1000 / num_real (clamp_fps f)))) 0 opt fs)" for opt
    by (simp add: save_gif_def fs frame_delay_eq(1) [OF assms(2)])
  have "\<exists>v. save_fallback known sfx fs (clamp_fps f) = Inr v" if "sfx = ''.gif'' \<or> known sfx" for sfx
    using that g [of False] by (auto simp: save_fallback_def fs frame_delay_eq(1) [OF assms(2)])
  then have fb: "\<exists>v. save_fallback known sfx fs (clamp_fps f) = Inr v"
    if "sfx = ''.gif'' \<or> known sfx" for sfx
    using that by blast
  show ?thesis
  proof (cases "fmt = ''gif''")
    case True
    then show ?thesis using g [of True] by (simp add: export_def)
  next
    case False
    show ?thesis
    proof (cases io)
      case WriterWorks
      then show ?thesis using False by (simp add: export_def)
    next
      case WriterFails
      then show ?thesis using assms(3) False by simp
    next
      case ImportFails
      then have "replace_mp4 (''.'' @ fmt) = ''.gif'' \<or> known (replace_mp4 (''.'' @ fmt))"
        using assms(3) False by blast
      from fb [OF this] obtain v where
        "save_fallback known (replace_mp4 (''.'' @ fmt)) fs (clamp_fps f) = Inr v" ..
      then show ?thesis
        using False ImportFails by (simp add: export_def del: replace_mp4.simps append.simps)
    qed
  qed
qed

lemma generate_succeeds:
  assumes "req_image data = Some s" "s \<noteq> []" "decode e (strip_data_url s) = Some dims"
    and "2 \<le> fst dims" "fst dims \<le> 2 ^ 52" "2 \<le> snd dims" "snd dims \<le> 2 ^ 52"
    and "pil_total (pil_resize e)"
    and "select_motion (req_motion data) (dflt (req_preset data) ''zoom_in'') = Inr m"
    and "moderate_spec m"
    and "1 \<le> num_real (start_scale m)"
      "num_real (start_scale m) \<le> real (min ((fst dims div 2) * 2) ((snd dims div 2) * 2))"
    and "1 \<le> num_real (end_scale m)"
      "num_real (end_scale m) \<le> real (min ((fst dims div 2) * 2) ((snd dims div 2) * 2))"
    and "req_duration data \<noteq> Some (PFloat NaN)" "req_fps data \<noteq> Some (PFloat NaN)"
    and "dflt (req_format data) ''gif'' = ''gif'' \<or> imageio e = WriterWorks \<or>
      imageio e = ImportFails \<and>
        (replace_mp4 (''.'' @ dflt (req_format data) ''gif'') = ''.gif'' \<or>
         pil_known e (replace_mp4 (''.'' @ dflt (req_format data) ''gif'')))"
  shows "\<exists>r. generate e data = Success r"
proof -
  define img where "img = \<lparr>width = (fst dims div 2) * 2, height = (snd dims div 2) * 2\<rparr>"
  define D where "D = clamp_duration (req_duration data)"
  define F where "F = clamp_fps (req_fps data)"
  have img: "even_image (pil_resize e) dims = Inr img"
    unfolding img_def using assms(8,4,6) by (rule even_image_ok)
  have w: "1 \<le> width img" "int (width img) \<le> 2 ^ 52" "1 \<le> height img" "int (height img) \<le> 2 ^ 52"
  proof -
    have "(fst dims div 2) * 2 \<le> fst dims" "(snd dims div 2) * 2 \<le> snd dims" by simp_all
    then have "(fst dims div 2) * 2 \<le> 2 ^ 52" "(snd dims div 2) * 2 \<le> 2 ^ 52"
      using assms(5,7) by linarith+
    then have "int ((fst dims div 2) * 2) \<le> int (2 ^ 52)" "int ((snd dims div 2) * 2) \<le> int (2 ^ 52)"
      by (simp_all only: of_nat_le_iff)
    then show "int (width img) \<le> 2 ^ 52" "int (height img) \<le> 2 ^ 52" by (simp_all add: img_def)
    show "1 \<le> width img" "1 \<le> height img" using assms(4,6) by (simp_all add: img_def)
  qed
  have mn: "real_of_int (min (int (width img)) (int (height img))) =
      real (min ((fst dims div 2) * 2) ((snd dims div 2) * 2))"
    by (simp add: img_def min_def)
  define n where "n = trunc (fl (num_real D * num_real F))"
  note fc = frame_count_value [OF assms(15,16), folded D_def F_def, folded n_def]
  obtain fs where fs: "gen_frames (pil_resize e) img n m (map int [0..<nat n]) = Inr fs"
    using frames_ok [OF w assms(8,10,11) _ assms(13)] assms(12,14) unfolding mn by blast
  have "length fs = nat n" using gen_frames_length [OF fs] by simp
  then have "fs \<noteq> []" using fc(2) by auto
  then obtain v fmt where ex: "export (imageio e) (pil_known e) (dflt (req_format data) ''gif'') fs F = Inr (v, fmt)"
    using export_ok [where known = "pil_known e", OF _ assms(16,17)] unfolding F_def by blast
  have "synthesize e s (dflt (req_preset data) ''zoom_in'') D F (dflt (req_format data) ''gif'') m =
      Inr \<lparr>res_video = v, res_format = fmt, res_duration = D, res_fps = F, res_frames = n,
           res_preset = dflt (req_preset data) ''zoom_in''\<rparr>"
    by (simp add: synthesize_def assms(3) img fc(1) fs ex)
  then show ?thesis
    by (simp add: generate_def assms(1,2,9) Let_def D_def F_def)
qed

lemma dbl_halves: "dbl (3/2) = PFloat (Fin (3/2))" "dbl (25/2) = PFloat (Fin (25/2))"
  by (simp_all add: fl_eval num_eval)

lemma presets_scale_range:
  "\<forall>(name, p) \<in> set MOTION_PRESETS.
     1 \<le> num_real (start_scale p) \<and> num_real (start_scale p) \<le> 2 \<and>
     1 \<le> num_real (end_scale p) \<and> num_real (end_scale p) \<le> 2"
  by (simp add: MOTION_PRESETS_def mk_motion_def dbl_values)

lemma preset_get_member: "preset_get name = Inr p \<Longrightarrow> \<exists>k. (k, p) \<in> set MOTION_PRESETS"
proof -
  assume a: "preset_get name = Inr p"
  have z: "(''zoom_in'', mk_motion 1 (13/10) (1/2) (1/2) (1/2) (1/2)) \<in> set MOTION_PRESETS"
    by (simp add: MOTION_PRESETS_def)
  show ?thesis
  proof (cases "map_of MOTION_PRESETS name")
    case None
    then have "p = mk_motion 1 (13/10) (1/2) (1/2) (1/2) (1/2)"
      using a by (simp add: preset_get_def zoom_in_item)
    then show ?thesis using z by blast
  next
    case (Some q)
    then have "p = q" using a by (simp add: preset_get_def zoom_in_item)
    then show ?thesis using map_of_SomeD [OF Some] by blast
  qed
qed

lemma demo_pil: "pil_total (pil_resize (demo_env io))"
  by (simp add: pil_total_def demo_env_def)

lemma custom_motion_value:
  "select_motion (req_motion custom_request) (dflt (req_preset custom_request) ''zoom_in'') =
     Inr (mk_motion (11/10) (13/10) (1/2) (1/2) (1/2) (1/2))"
  by (simp add: select_motion_def custom_request_def custom_get_def mk_motion_def)

lemma custom_motion_moderate: "moderate_spec (mk_motion (11/10) (13/10) (1/2) (1/2) (1/2) (1/2))"
  by (simp add: moderate_spec_def mk_motion_def dbl_values fl_eval)

lemma custom_request_succeeds:
  assumes "io \<noteq> WriterFails"
  shows "\<exists>r. generate (demo_env io) custom_request = Success r"
proof (rule generate_succeeds [where s = "''data:image/png;base64,AAAA''" and dims = "(65, 48)"])
  show "select_motion (req_motion custom_request) (dflt (req_preset custom_request) ''zoom_in'') =
     Inr (mk_motion (11/10) (13/10) (1/2) (1/2) (1/2) (1/2))"
    by (rule custom_motion_value)
  show "moderate_spec (mk_motion (11/10) (13/10) (1/2) (1/2) (1/2) (1/2))"
    by (rule custom_motion_moderate)
  show "pil_total (pil_resize (demo_env io))" by (rule demo_pil)
  show "decode (demo_env io) (strip_data_url ''data:image/png;base64,AAAA'') = Some (65, 48)"
    by (simp add: demo_env_def strip_data_url_def)
  show "dflt (req_format custom_request) ''gif'' = ''gif'' \<or>
      imageio (demo_env io) = WriterWorks \<or>
      imageio (demo_env io) = ImportFails \<and>
        (replace_mp4 (''.'' @ dflt (req_format custom_request) ''gif'') = ''.gif'' \<or>
         pil_known (demo_env io) (replace_mp4 (''.'' @ dflt (req_format custom_request) ''gif'')))"
    using assms by (cases io) (simp_all add: demo_env_def custom_request_def dflt_def)
qed (simp_all add: custom_request_def mk_motion_def dbl_values dbl_halves)

lemma default_request_succeeds:
  "\<exists>r. generate (demo_env io) default_request = Success r"
proof (rule generate_succeeds [where s = "''AAAA''" and dims = "(65, 48)"])
  show "select_motion (req_motion default_request) (dflt (req_preset default_request) ''zoom_in'') =
     Inr (mk_motion 1 (13/10) (1/2) (1/2) (1/2) (1/2))"
    by (simp add: select_motion_def default_request_def dflt_def preset_get_def zoom_in_item
        MOTION_PRESETS_def)
  show "moderate_spec (mk_motion 1 (13/10) (1/2) (1/2) (1/2) (1/2))"
    by (rule zoom_in_moderate)
  show "pil_total (pil_resize (demo_env io))" by (rule demo_pil)
  show "decode (demo_env io) (strip_data_url ''AAAA'') = Some (65, 48)"
    by (simp add: demo_env_def strip_data_url_def)
qed (simp_all add: default_request_def mk_motion_def dbl_values dflt_def)

lemma custom_request_numbers:
  "clamp_duration (req_duration custom_request) = PFloat (Fin (3/2))"
  "clamp_fps (req_fps custom_request) = PFloat (Fin (25/2))"
  by (simp_all add: custom_request_def dbl_halves clamp_duration_def clamp_fps_def dflt_def
      py_max_def py_min_def num_lt_def)

subsection \<open>The same request with another encoder\<close>

lemma generate_with_encoder:
  assumes "generate (e\<lparr>imageio := WriterWorks\<rparr>) data = Success r0"
    and "dflt (req_format data) ''gif'' \<noteq> ''gif''"
  shows "\<exists>fs. fs \<noteq> [] \<and> video_frames (res_video r0) = fs \<and>
     req_fps data \<noteq> Some (PFloat NaN) \<and>
     generate e data =
       (case export (imageio e) (pil_known e) (dflt (req_format data) ''gif'') fs
               (clamp_fps (req_fps data)) of
          Inl err \<Rightarrow> ServerError err
        | Inr (v, fmt) \<Rightarrow> Success (r0\<lparr>res_video := v, res_format := fmt\<rparr>))"
proof -
  define F where "F = clamp_fps (req_fps data)"
  define D where "D = clamp_duration (req_duration data)"
  define fmt where "fmt = dflt (req_format data) ''gif''"
  define P where "P = dflt (req_preset data) ''zoom_in''"
  from assms(1) obtain s dims img n fs v m where g:
    "req_image data = Some s" "s \<noteq> []"
    "select_motion (req_motion data) P = Inr m"
    "decode e (strip_data_url s) = Some dims"
    "even_image (pil_resize e) dims = Inr img"
    "frame_count D F = Inr n"
    "gen_frames (pil_resize e) img n m (map int [0..<nat n]) = Inr fs"
    "export WriterWorks (pil_known e) fmt fs F = Inr (v, res_format r0)"
    "r0 = \<lparr>res_video = v, res_format = res_format r0, res_duration = D,
          res_fps = F, res_frames = n, res_preset = P\<rparr>"
    unfolding F_def D_def fmt_def P_def by (elim generate_Success) simp
  have v: "v = Mp4File F fs" using g(8) assms(2) by (simp add: export_def fmt_def)
  have nn: "req_duration data \<noteq> Some (PFloat NaN)" "req_fps data \<noteq> Some (PFloat NaN)"
    using frame_count_not_nan [OF g(6) [unfolded D_def F_def]] by simp_all
  have "12 \<le> n" using frame_count_value(1,2) [OF nn] g(6) by (simp add: D_def F_def)
  then have ne: "fs \<noteq> []" using gen_frames_length [OF g(7)] by auto
  have r0: "res_video r0 = v" "res_duration r0 = D" "res_fps r0 = F" "res_frames r0 = n"
    "res_preset r0 = P"
    using g(9)
    by (metis result.select_convs(1), metis result.select_convs(3),
        metis result.select_convs(4), metis result.select_convs(5),
        metis result.select_convs(6))
  have upd: "r0\<lparr>res_video := v', res_format := f'\<rparr> =
      \<lparr>res_video = v', res_format = f', res_duration = D, res_fps = F, res_frames = n,
       res_preset = P\<rparr>" for v' f'
    using r0 by (cases r0) simp
  have syn: "synthesize e s P D F fmt m =
      bnd (export (imageio e) (pil_known e) fmt fs F) (\<lambda>(v', f').
        Inr \<lparr>res_video = v', res_format = f', res_duration = D, res_fps = F,
             res_frames = n, res_preset = P\<rparr>)"
    by (simp add: synthesize_def g(4,5,6,7))
  have gen: "generate e data =
      (case synthesize e s P D F fmt m of Inl err \<Rightarrow> ServerError err | Inr r \<Rightarrow> Success r)"
    by (simp add: generate_def g(1,2) g(3) [unfolded P_def] Let_def D_def F_def fmt_def P_def)
  have "generate e data =
       (case export (imageio e) (pil_known e) fmt fs F of
          Inl err \<Rightarrow> ServerError err
        | Inr (v, f) \<Rightarrow> Success (r0\<lparr>res_video := v, res_format := f\<rparr>))"
    unfolding gen syn
    by (cases "export (imageio e) (pil_known e) fmt fs F") (auto simp: upd)
  moreover have "video_frames (res_video r0) = fs" by (simp add: r0(1) v video_frames_def)
  ultimately show ?thesis using ne nn(2) unfolding fmt_def F_def by blast
qed

lemma webm_request_succeeds: "\<exists>r. generate (demo_env WriterWorks) webm_request = Success r"
proof (rule generate_succeeds [where s = "''data:image/png;base64,AAAA''" and dims = "(65, 48)"])
  show "select_motion (req_motion webm_request) (dflt (req_preset webm_request) ''zoom_in'') =
     Inr (mk_motion (11/10) (13/10) (1/2) (1/2) (1/2) (1/2))"
    using custom_motion_value by (simp add: webm_request_def)
  show "moderate_spec (mk_motion (11/10) (13/10) (1/2) (1/2) (1/2) (1/2))"
    by (rule custom_motion_moderate)
  show "pil_total (pil_resize (demo_env WriterWorks))" by (rule demo_pil)
  show "decode (demo_env WriterWorks) (strip_data_url ''data:image/png;base64,AAAA'') =
      Some (65, 48)"
    by (simp add: demo_env_def strip_data_url_def)
qed (simp_all add: webm_request_def custom_request_def mk_motion_def dbl_values dbl_halves
    demo_env_def)

text \<open>
  Without the encoder, a request for the format \<^verbatim>\<open>webm\<close> does not fall back to a GIF:
  the path keeps its suffix \<^verbatim>\<open>.webm\<close>, for which the imaging library of the sample
  environment has no writer.
\<close>

lemma fallback_keeps_other_suffix:
  "replace_mp4 ''.webm'' = ''.webm'' \<and>
   generate (demo_env ImportFails) webm_request = ServerError ValueError"
proof -
  obtain r0 where r0: "generate (demo_env WriterWorks) webm_request = Success r0"
    using webm_request_succeeds by blast
  have e: "(demo_env ImportFails)\<lparr>imageio := WriterWorks\<rparr> = demo_env WriterWorks"
    by (simp add: demo_env_def)
  have f: "dflt (req_format webm_request) ''gif'' = ''webm''"
    by (simp add: webm_request_def dflt_def)
  have n: "req_fps webm_request \<noteq> Some (PFloat NaN)"
    by (simp add: webm_request_def custom_request_def dbl_halves)
  obtain fs where fs: "fs \<noteq> []"
    and g: "generate (demo_env ImportFails) webm_request =
       (case export (imageio (demo_env ImportFails)) (pil_known (demo_env ImportFails)) ''webm'' fs
               (clamp_fps (req_fps webm_request)) of
          Inl err \<Rightarrow> ServerError err
        | Inr (v, fmt) \<Rightarrow> Success (r0\<lparr>res_video := v, res_format := fmt\<rparr>))"
    using generate_with_encoder [OF r0 [folded e]] unfolding f by auto
  obtain x xs where x: "fs = x # xs" using fs by (cases fs) auto
  have w: "replace_mp4 ''.webm'' = ''.webm''" by simp
  have "export ImportFails (pil_known (demo_env ImportFails)) ''webm'' fs
      (clamp_fps (req_fps webm_request)) = Inl ValueError"
    unfolding export_def
    by (simp add: w save_fallback_def x frame_delay_eq(1) [OF n] demo_env_def
        del: replace_mp4.simps)
  then show ?thesis using g w by (simp add: demo_env_def del: replace_mp4.simps)
qed

section \<open>Frames and responses of the handler\<close>

text \<open>
  Claim C8. For every frame index and every scale value, the frame that the frame
  generator returns has exactly the width and height of the image it was given; the
  handler gives it the source resized to even width and height, so that every frame of a
  successful response measures \<open>(iw div 2) * 2\<close> by \<open>(ih div 2) * 2\<close> for a source of
  \<open>iw\<close> by \<open>ih\<close> pixels, and the response holds as many frames as it reports.
\<close>

theorem frames_keep_source_size:
  "(generate_frame p img i n m = Inr f \<longrightarrow> width f = width img \<and> height f = height img) \<and>
   (generate e data = Success r \<and> req_image data = Some s \<and>
    decode e (strip_data_url s) = Some (iw, ih) \<longrightarrow>
      (\<forall>g \<in> set (video_frames (res_video r)).
          width g = (iw div 2) * 2 \<and> height g = (ih div 2) * 2) \<and>
      length (video_frames (res_video r)) = nat (res_frames r))"
proof (intro conjI impI)
  assume "generate_frame p img i n m = Inr f"
  then show "width f = width img" "height f = height img"
    using generate_frame_dims by blast+
next
  assume a: "generate e data = Success r \<and> req_image data = Some s \<and>
    decode e (strip_data_url s) = Some (iw, ih)"
  from a obtain s' dims im k fs v mo where g:
    "req_image data = Some s'" "decode e (strip_data_url s') = Some dims"
    "even_image (pil_resize e) dims = Inr im"
    "gen_frames (pil_resize e) im k mo (map int [0..<nat k]) = Inr fs"
    "export (imageio e) (pil_known e) (dflt (req_format data) ''gif'') fs (clamp_fps (req_fps data)) =
       Inr (v, res_format r)"
    "r = \<lparr>res_video = v, res_format = res_format r,
          res_duration = clamp_duration (req_duration data),
          res_fps = clamp_fps (req_fps data), res_frames = k,
          res_preset = dflt (req_preset data) ''zoom_in''\<rparr>"
    by (elim conjE generate_Success) blast
  have d: "dims = (iw, ih)" using a g(1,2) by simp
  have v: "video_frames (res_video r) = fs" "res_frames r = k"
    using export_value(1) [OF g(5)] g(6) by (metis result.select_convs(1), metis result.select_convs(5))
  have im: "width im = (iw div 2) * 2" "height im = (ih div 2) * 2"
    using even_image_dims [OF g(3)] by (simp_all add: d)
  show "\<forall>g \<in> set (video_frames (res_video r)).
          width g = (iw div 2) * 2 \<and> height g = (ih div 2) * 2"
    using gen_frames_dims [OF g(4)] by (simp add: v im)
  show "length (video_frames (res_video r)) = nat (res_frames r)"
    using gen_frames_length [OF g(4)] by (simp add: v)
qed

text \<open>
  The sample request on the 65 by 48 source: every frame is 64 by 48.
\<close>

theorem frames_keep_source_size_witness:
  "\<exists>r. generate (demo_env ImportFails) custom_request = Success r \<and>
       decode (demo_env ImportFails) (strip_data_url ''data:image/png;base64,AAAA'') = Some (65, 48) \<and>
       (\<forall>g \<in> set (video_frames (res_video r)). width g = 64 \<and> height g = 48) \<and>
       length (video_frames (res_video r)) = nat (res_frames r)"
proof -
  obtain r where r: "generate (demo_env ImportFails) custom_request = Success r"
    using custom_request_succeeds [of ImportFails] by auto
  have i: "req_image custom_request = Some ''data:image/png;base64,AAAA''"
    by (simp add: custom_request_def)
  have d: "decode (demo_env ImportFails) (strip_data_url ''data:image/png;base64,AAAA'') = Some (65, 48)"
    by (simp add: demo_env_def strip_data_url_def)
  have "(\<forall>g \<in> set (video_frames (res_video r)).
          width g = (65 div 2) * 2 \<and> height g = (48 div 2) * 2) \<and>
      length (video_frames (res_video r)) = nat (res_frames r)"
    using frames_keep_source_size [of _ _ _ _ _ _ "demo_env ImportFails" custom_request r
        "''data:image/png;base64,AAAA''" 65 48] r i d by blast
  then show ?thesis using r d by (intro exI [of _ r]) simp
qed

text \<open>
  Claim C10. The \<^verbatim>\<open>preset\<close> field of a successful response is the preset string of the
  request, or \<^verbatim>\<open>zoom_in\<close> when the request has none. It does not describe the motion
  applied: a name outside the catalog selects the same motion as \<^verbatim>\<open>zoom_in\<close>, and with
  a non-empty custom motion the motion does not depend on the name at all.
\<close>

theorem response_echoes_preset:
  "(generate e data = Success r \<longrightarrow> res_preset r = dflt (req_preset data) ''zoom_in'') \<and>
   (map_of MOTION_PRESETS name = None \<longrightarrow>
      select_motion None name = select_motion None ''zoom_in'') \<and>
   select_motion (Some (kv # kvs)) name = select_motion (Some (kv # kvs)) ''zoom_in''"
proof (intro conjI impI)
  assume "generate e data = Success r"
  then show "res_preset r = dflt (req_preset data) ''zoom_in''"
    by (elim generate_Success) (metis result.select_convs(6))
next
  assume "map_of MOTION_PRESETS name = None"
  then show "select_motion None name = select_motion None ''zoom_in''"
    by (simp add: select_motion_def preset_get_def zoom_in_item MOTION_PRESETS_def)
next
  show "select_motion (Some (kv # kvs)) name = select_motion (Some (kv # kvs)) ''zoom_in''"
    by (simp add: select_motion_def)
qed

text \<open>
  The sample request names the preset \<^verbatim>\<open>spin\<close>, which the catalog does not have, and
  the response reports \<^verbatim>\<open>spin\<close>.
\<close>

theorem response_echoes_preset_witness:
  "map_of MOTION_PRESETS ''spin'' = None \<and>
   (\<exists>r. generate (demo_env WriterWorks) custom_request = Success r \<and> res_preset r = ''spin'') \<and>
   select_motion None ''spin'' = select_motion None ''zoom_in''"
proof -
  obtain r where r: "generate (demo_env WriterWorks) custom_request = Success r"
    using custom_request_succeeds [of WriterWorks] by auto
  have n: "map_of MOTION_PRESETS ''spin'' = None" by (simp add: MOTION_PRESETS_def)
  note t = response_echoes_preset [of "demo_env WriterWorks" custom_request r "''spin''"]
  from t r have "res_preset r = dflt (req_preset custom_request) ''zoom_in''" by blast
  then have "res_preset r = ''spin''" by (simp add: custom_request_def dflt_def)
  moreover from t n have "select_motion None ''spin'' = select_motion None ''zoom_in''" by blast
  ultimately show ?thesis using r n by blast
qed

text \<open>
  Claim C4, as amended. When the request asks for the format \<^verbatim>\<open>mp4\<close> and the import
  or the use of the MP4 encoder raises \<^verbatim>\<open>ImportError\<close>, a request that succeeds with
  a working encoder succeeds too: the response carries the same frames written as a GIF,
  reports the format \<^verbatim>\<open>gif\<close>, and is otherwise the response of the working encoder.
  When the encoder fails with any other exception there is no fallback, and the request
  fails with status 500.
\<close>

theorem mp4_falls_back_to_gif:
  assumes "req_format data = Some ''mp4''"
    and "generate (e\<lparr>imageio := WriterWorks\<rparr>) data = Success r0"
  shows "(imageio e = ImportFails \<longrightarrow>
       (\<exists>d. generate e data =
          Success (r0\<lparr>res_video := GifFile d 0 False (video_frames (res_video r0)),
                      res_format := ''gif''\<rparr>))) \<and>
     (imageio e = WriterFails \<longrightarrow> generate e data = ServerError EncoderError)"
proof -
  define F where "F = clamp_fps (req_fps data)"
  have fmt: "dflt (req_format data) ''gif'' = ''mp4''" using assms(1) by (simp add: dflt_def)
  then have "dflt (req_format data) ''gif'' \<noteq> ''gif''" by simp
  from generate_with_encoder [OF assms(2) this]
  obtain fs where fs: "fs \<noteq> []" "video_frames (res_video r0) = fs"
    and nn: "req_fps data \<noteq> Some (PFloat NaN)"
    and g: "generate e data =
       (case export (imageio e) (pil_known e) ''mp4'' fs F of
          Inl err \<Rightarrow> ServerError err
        | Inr (v, f) \<Rightarrow> Success (r0\<lparr>res_video := v, res_format := f\<rparr>))"
    unfolding fmt F_def by blast
  obtain x xs where x: "fs = x # xs" using fs(1) by (cases fs) auto
  define d where "d = trunc (fl (1000 / num_real F))"
  have sg: "save_gif fs F False = Inr (GifFile d 0 False fs)"
    by (simp add: save_gif_def x frame_delay_eq(1) [OF nn] F_def d_def)
  have "export ImportFails (pil_known e) ''mp4'' fs F = Inr (GifFile d 0 False fs, ''gif'')"
    by (simp add: export_def save_fallback_def sg)
  then have fallback: "generate e data =
      Success (r0\<lparr>res_video := GifFile d 0 False (video_frames (res_video r0)),
                  res_format := ''gif''\<rparr>)" if "imageio e = ImportFails"
    using g that by (simp add: fs(2))
  have "export WriterFails (pil_known e) ''mp4'' fs F = Inl EncoderError"
    by (simp add: export_def)
  then have failure: "generate e data = ServerError EncoderError" if "imageio e = WriterFails"
    using g that by simp
  show ?thesis using fallback failure by blast
qed

text \<open>
  The sample request asks for \<^verbatim>\<open>mp4\<close>: with a working encoder the response reports
  \<^verbatim>\<open>mp4\<close>, when the encoder raises \<^verbatim>\<open>ImportError\<close> it reports \<^verbatim>\<open>gif\<close>, and when the
  encoder raises another exception the request fails.
\<close>

theorem mp4_falls_back_to_gif_witness:
  "imageio (demo_env ImportFails) = ImportFails \<and> req_format custom_request = Some ''mp4'' \<and>
   (\<exists>r0. generate (demo_env WriterWorks) custom_request = Success r0 \<and> res_format r0 = ''mp4'') \<and>
   (\<exists>r. generate (demo_env ImportFails) custom_request = Success r \<and> res_format r = ''gif'') \<and>
   imageio (demo_env WriterFails) = WriterFails \<and>
   generate (demo_env WriterFails) custom_request = ServerError EncoderError"
proof -
  obtain r0 where r0: "generate (demo_env WriterWorks) custom_request = Success r0"
    using custom_request_succeeds [of WriterWorks] by auto
  have e: "(demo_env ImportFails)\<lparr>imageio := WriterWorks\<rparr> = demo_env WriterWorks"
    "(demo_env WriterFails)\<lparr>imageio := WriterWorks\<rparr> = demo_env WriterWorks"
    by (simp_all add: demo_env_def)
  have i: "imageio (demo_env ImportFails) = ImportFails"
    "imageio (demo_env WriterFails) = WriterFails"
    by (simp_all add: demo_env_def)
  have f: "req_format custom_request = Some ''mp4''" by (simp add: custom_request_def)
  obtain d where "generate (demo_env ImportFails) custom_request =
      Success (r0\<lparr>res_video := GifFile d 0 False (video_frames (res_video r0)),
                  res_format := ''gif''\<rparr>)"
    using mp4_falls_back_to_gif [OF f r0 [folded e(1)]] i(1) by blast
  then have g: "\<exists>r. generate (demo_env ImportFails) custom_request = Success r \<and>
      res_format r = ''gif''" by simp
  have w: "generate (demo_env WriterFails) custom_request = ServerError EncoderError"
    using mp4_falls_back_to_gif [OF f r0 [folded e(2)]] i(2) by blast
  have "res_format r0 = ''mp4''"
    using r0
  proof (rule generate_Success)
    fix fs v
    assume x: "export (imageio (demo_env WriterWorks)) (pil_known (demo_env WriterWorks))
        (dflt (req_format custom_request) ''gif'') fs
        (clamp_fps (req_fps custom_request)) = Inr (v, res_format r0)"
    then show ?thesis by (simp add: export_def demo_env_def custom_request_def dflt_def)
  qed
  then show ?thesis using r0 g i f w by blast
qed

text \<open>
  Claim C4 as stated fails when the encoder is unavailable in another way than by
  \<^verbatim>\<open>ImportError\<close>, as when the package \<^verbatim>\<open>imageio\<close> is installed and its writer finds
  no codec: the handler catches nothing but \<^verbatim>\<open>ImportError\<close>, and the request for
  \<^verbatim>\<open>mp4\<close> fails with status 500.
\<close>

theorem encoder_failure_is_not_caught:
  "req_format custom_request = Some ''mp4'' \<and>
   generate (demo_env WriterFails) custom_request = ServerError EncoderError"
proof -
  obtain r0 where r0: "generate (demo_env WriterWorks) custom_request = Success r0"
    using custom_request_succeeds [of WriterWorks] by auto
  have e: "(demo_env WriterFails)\<lparr>imageio := WriterWorks\<rparr> = demo_env WriterWorks"
    by (simp add: demo_env_def)
  have f: "dflt (req_format custom_request) ''gif'' = ''mp4''"
    by (simp add: custom_request_def dflt_def)
  then have "dflt (req_format custom_request) ''gif'' \<noteq> ''gif''" by simp
  from generate_with_encoder [OF r0 [folded e] this]
  obtain fs where "generate (demo_env WriterFails) custom_request =
       (case export (imageio (demo_env WriterFails)) (pil_known (demo_env WriterFails)) ''mp4'' fs
               (clamp_fps (req_fps custom_request)) of
          Inl err \<Rightarrow> ServerError err
        | Inr (v, fmt) \<Rightarrow> Success (r0\<lparr>res_video := v, res_format := fmt\<rparr>))"
    unfolding f by blast
  then have "generate (demo_env WriterFails) custom_request = ServerError EncoderError"
    by (simp add: export_def demo_env_def)
  then show ?thesis by (simp add: custom_request_def)
qed

text \<open>
  Claim C5, as amended. For every duration and frame rate other than NaN, the number of
  frames is \<^verbatim>\<open>int(duration * fps)\<close> of the clamped values: the float product
  truncated toward zero, a number between 12 and 600. Frame index 0 is at motion
  progress 0.0 and the last index at motion progress 1.0, and a successful response
  reports that number and holds that many frames.
\<close>

theorem frame_count_truncates:
  assumes "req_duration data \<noteq> Some (PFloat NaN)" "req_fps data \<noteq> Some (PFloat NaN)"
  shows "\<exists>n. frame_count (clamp_duration (req_duration data)) (clamp_fps (req_fps data)) = Inr n \<and>
      n = trunc (fl (num_real (clamp_duration (req_duration data)) *
                     num_real (clamp_fps (req_fps data)))) \<and>
      12 \<le> n \<and> n \<le> 600 \<and>
      frame_progress 0 n = Inr (PFloat (Fin 0)) \<and>
      frame_progress (n - 1) n = Inr (PFloat (Fin 1)) \<and>
      (\<forall>e r. generate e data = Success r \<longrightarrow>
         res_frames r = n \<and> length (video_frames (res_video r)) = nat n)"
proof -
  define n where "n = trunc (fl (num_real (clamp_duration (req_duration data)) *
                     num_real (clamp_fps (req_fps data))))"
  note fc = frame_count_value [OF assms, folded n_def]
  have last: "frame_progress (n - 1) n = Inr (PFloat (Fin 1))"
    using fc(2) by (intro frame_progress_last) simp
  have "res_frames r = n \<and> length (video_frames (res_video r)) = nat n"
    if "generate e data = Success r" for e r
  proof -
    from that obtain img k fs v m where
      k: "frame_count (clamp_duration (req_duration data)) (clamp_fps (req_fps data)) = Inr k"
      and fs: "gen_frames (pil_resize e) img k m (map int [0..<nat k]) = Inr fs"
      and ex: "export (imageio e) (pil_known e) (dflt (req_format data) ''gif'') fs (clamp_fps (req_fps data)) =
         Inr (v, res_format r)"
      and r: "r = \<lparr>res_video = v, res_format = res_format r,
          res_duration = clamp_duration (req_duration data),
          res_fps = clamp_fps (req_fps data), res_frames = k,
          res_preset = dflt (req_preset data) ''zoom_in''\<rparr>"
      by (elim generate_Success) blast
    have kn: "k = n" using k fc(1) by simp
    have "res_video r = v" "res_frames r = k"
      using r by (metis result.select_convs(1), metis result.select_convs(5))
    then show ?thesis
      using export_value(1) [OF ex] gen_frames_length [OF fs] by (simp add: kn)
  qed
  then have "\<forall>e r. generate e data = Success r \<longrightarrow>
         res_frames r = n \<and> length (video_frames (res_video r)) = nat n"
    by blast
  then show ?thesis
    using fc last frame_progress_first [of n] unfolding n_def by (intro exI conjI) (rule refl | assumption)+
qed

text \<open>
  The sample request: 1.5 seconds at 12.5 frames per second make 18 frames.
\<close>

theorem frame_count_truncates_witness:
  "req_duration custom_request \<noteq> Some (PFloat NaN) \<and>
   req_fps custom_request \<noteq> Some (PFloat NaN) \<and>
   frame_count (clamp_duration (req_duration custom_request))
     (clamp_fps (req_fps custom_request)) = Inr 18 \<and>
   (\<exists>r. generate (demo_env WriterWorks) custom_request = Success r \<and> res_frames r = 18 \<and>
        length (video_frames (res_video r)) = 18)"
proof -
  have h: "req_duration custom_request \<noteq> Some (PFloat NaN)"
    "req_fps custom_request \<noteq> Some (PFloat NaN)"
    by (simp_all add: custom_request_def dbl_halves)
  obtain r where r: "generate (demo_env WriterWorks) custom_request = Success r"
    using custom_request_succeeds [of WriterWorks] by auto
  have v: "trunc (fl (num_real (clamp_duration (req_duration custom_request)) *
                     num_real (clamp_fps (req_fps custom_request)))) = 18"
    by (simp add: custom_request_numbers fl_eval trunc_def)
  from frame_count_truncates [OF h] r
  have "frame_count (clamp_duration (req_duration custom_request))
       (clamp_fps (req_fps custom_request)) = Inr 18 \<and>
     res_frames r = 18 \<and> length (video_frames (res_video r)) = nat 18"
    unfolding v by blast
  then show ?thesis using h r by (intro conjI exI [of _ r]) simp_all
qed

text \<open>
  Claim C5 as stated fails for 1.5 seconds at 12.5 frames per second: the product 18.75
  rounds to 19, and the handler generates 18 frames.
\<close>

theorem frame_count_is_not_rounded:
  "frame_count (clamp_duration (Some (dbl (3/2)))) (clamp_fps (Some (dbl (25/2)))) = Inr 18 \<and>
   round (3/2 * 25/2 :: real) = 19"
proof -
  have "clamp_duration (Some (dbl (3/2))) = PFloat (Fin (3/2))"
    "clamp_fps (Some (dbl (25/2))) = PFloat (Fin (25/2))"
    by (simp_all add: dbl_halves clamp_duration_def clamp_fps_def dflt_def
        py_max_def py_min_def num_lt_def)
  then have "frame_count (clamp_duration (Some (dbl (3/2)))) (clamp_fps (Some (dbl (25/2)))) = Inr 18"
    by (simp add: frame_count_def fl_eval num_eval)
  moreover have "round (3/2 * 25/2 :: real) = 19" by (simp add: round_def)
  ultimately show ?thesis by blast
qed

text \<open>
  Claim C7, as amended. For every frame rate other than NaN, the frame delay that the
  GIF path passes to the GIF writer is \<^verbatim>\<open>int(1000 / fps)\<close> of the clamped rate: the float quotient truncated
  toward zero, between 16 and 83 milliseconds, and \<open>1000 div fps\<close> for an integer rate.
  Every GIF of a successful response carries that delay and the loop count 0, which
  stands for an infinite loop.
\<close>

theorem gif_delay_truncates:
  assumes "req_fps data \<noteq> Some (PFloat NaN)"
  shows "\<exists>d. frame_delay (clamp_fps (req_fps data)) = Inr d \<and>
      d = trunc (fl (1000 / num_real (clamp_fps (req_fps data)))) \<and> 16 \<le> d \<and> d \<le> 83 \<and>
      (\<forall>k. clamp_fps (req_fps data) = PInt k \<longrightarrow> d = 1000 div k) \<and>
      (\<forall>e r dur lp opt fs.
         generate e data = Success r \<and> res_video r = GifFile dur lp opt fs \<longrightarrow>
         dur = d \<and> lp = 0)"
proof -
  define F where "F = clamp_fps (req_fps data)"
  define d where "d = trunc (fl (1000 / num_real F))"
  note fd = frame_delay_eq [OF assms, folded F_def, folded d_def]
  have int: "d = 1000 div k" if "F = PInt k" for k
  proof -
    have "12 \<le> k" "k \<le> 60" using clamp_fps_cases [OF assms] that by (auto simp: F_def)
    then show ?thesis using frame_delay_int [of k] that by (simp add: d_def)
  qed
  have gif: "dur = d \<and> lp = 0"
    if "generate e data = Success r \<and> res_video r = GifFile dur lp opt fs" for e r dur lp opt fs
  proof -
    from that have g: "generate e data = Success r" and v: "res_video r = GifFile dur lp opt fs"
      by simp_all
    from g obtain fs' v' n where
      ex: "export (imageio e) (pil_known e) (dflt (req_format data) ''gif'') fs' (clamp_fps (req_fps data)) =
           Inr (v', res_format r)"
      and r: "r = \<lparr>res_video = v', res_format = res_format r,
            res_duration = clamp_duration (req_duration data),
            res_fps = clamp_fps (req_fps data), res_frames = n,
            res_preset = dflt (req_preset data) ''zoom_in''\<rparr>"
      by (elim generate_Success) blast
    have "res_video r = v'" using r by (metis result.select_convs(1))
    then have "v' = GifFile dur lp opt fs" using v by simp
    then show ?thesis using export_value(2) [OF ex] fd(1) by (auto simp: F_def)
  qed
  have "\<forall>k. F = PInt k \<longrightarrow> d = 1000 div k" using int by blast
  moreover have "\<forall>e r dur lp opt fs.
         generate e data = Success r \<and> res_video r = GifFile dur lp opt fs \<longrightarrow>
         dur = d \<and> lp = 0" using gif by blast
  ultimately show ?thesis using fd unfolding d_def F_def by (intro exI conjI) (rule refl | assumption)+
qed

text \<open>
  The request without a frame rate: at the default 24 frames per second the delay is
  41 milliseconds.
\<close>

theorem gif_delay_truncates_witness:
  "req_fps default_request \<noteq> Some (PFloat NaN) \<and>
   clamp_fps (req_fps default_request) = PInt 24 \<and>
   frame_delay (clamp_fps (req_fps default_request)) = Inr 41 \<and>
   (\<exists>r fs. generate (demo_env ImportFails) default_request = Success r \<and>
      res_video r = GifFile 41 0 True fs)"
proof -
  have h: "req_fps default_request \<noteq> Some (PFloat NaN)" by (simp add: default_request_def)
  have f: "clamp_fps (req_fps default_request) = PInt 24"
    by (simp add: default_request_def clamp_fps_def dflt_def py_max_def py_min_def num_lt_def)
  obtain r where r: "generate (demo_env ImportFails) default_request = Success r"
    using default_request_succeeds [of ImportFails] by auto
  obtain d where d: "frame_delay (clamp_fps (req_fps default_request)) = Inr d"
    "\<forall>k. clamp_fps (req_fps default_request) = PInt k \<longrightarrow> d = 1000 div k"
    "\<forall>e r dur lp opt fs.
         generate e default_request = Success r \<and> res_video r = GifFile dur lp opt fs \<longrightarrow>
         dur = d \<and> lp = 0"
    using gif_delay_truncates [OF h] by blast
  have d41: "d = 41" using d(2) f by simp
  from r obtain fs v n where
    ex: "export (imageio (demo_env ImportFails)) (pil_known (demo_env ImportFails))
        (dflt (req_format default_request) ''gif'')
        fs (clamp_fps (req_fps default_request)) = Inr (v, res_format r)"
    and rr: "r = \<lparr>res_video = v, res_format = res_format r,
            res_duration = clamp_duration (req_duration default_request),
            res_fps = clamp_fps (req_fps default_request), res_frames = n,
            res_preset = dflt (req_preset default_request) ''zoom_in''\<rparr>"
    by (elim generate_Success) blast
  have "res_video r = v" using rr by (metis result.select_convs(1))
  moreover have "dflt (req_format default_request) ''gif'' = ''gif''"
    by (simp add: default_request_def dflt_def)
  ultimately have "\<exists>du fs. res_video r = GifFile du 0 True fs"
    using export_value(2) [OF ex] by auto
  then obtain du fs where v: "res_video r = GifFile du 0 True fs" by blast
  then have "du = 41" using d(3) r d41 by blast
  then show ?thesis using h f d(1) d41 r v by blast
qed

text \<open>
  Claim C7 as stated fails at the default rate of 24 frames per second: 1000 / 24 is
  41.67 and rounds to 42, and the GIF is written with a delay of 41 milliseconds.
\<close>

theorem gif_delay_is_not_rounded:
  "frame_delay (clamp_fps None) = Inr 41 \<and> round (1000 / 24 :: real) = 42"
proof -
  have "clamp_fps None = PInt 24"
    by (simp add: clamp_fps_def dflt_def py_max_def py_min_def num_lt_def)
  then have "frame_delay (clamp_fps None) = Inr 41"
    by (simp add: frame_delay_def fl_eval num_eval)
  moreover have "round (1000 / 24 :: real) = 42" by (simp add: round_def)
  ultimately show ?thesis by blast
qed

end
